theory Spec2Isabelle
  imports Complex_Main "HOL-Library.AList" "HOL-Library.Sublist"
begin

chapter \<open>The credential-free Reddit search engine of \<^verbatim>\<open>reddit_scout_noapi.py\<close>\<close>

text \<open>
  A shallow embedding of the functions \<^verbatim>\<open>_sanitize_query\<close>, \<^verbatim>\<open>_fetch_json\<close>,
  \<^verbatim>\<open>QueryPlan.queries_for_sub\<close>, \<^verbatim>\<open>_parse_query_plan\<close>,
  \<^verbatim>\<open>_validate_subreddits\<close>, \<^verbatim>\<open>_fan_out_search\<close> and of the LLM branch of
  \<^verbatim>\<open>fetch_posts_noapi\<close>. Mutable locals and the metadata dictionary are passed as
  state; the network, the clock and the sleeps are a history of events and functions
  of that history; exceptions are values. The definitions come first, the properties
  after them.
\<close>

section \<open>Query sanitizer\<close>

text \<open>
  Python strings are modelled as HOL strings, that is, sequences of the code points
  below 256. The two character classes are the ones Python's \<^verbatim>\<open>re\<close> module uses on
  \<^verbatim>\<open>str\<close> patterns, restricted to that range: \<^verbatim>\<open>\s\<close> (which is also what
  \<^verbatim>\<open>str.strip()\<close> removes) and \<^verbatim>\<open>\w\<close>.
\<close>

definition is_space :: "char \<Rightarrow> bool" where
  "is_space c = (let n = (of_char c :: nat) in
     (9 \<le> n \<and> n \<le> 13) \<or> (28 \<le> n \<and> n \<le> 32) \<or> n = 133 \<or> n = 160)"

definition is_word :: "char \<Rightarrow> bool" where
  "is_word c = (let n = (of_char c :: nat) in
     (48 \<le> n \<and> n \<le> 57) \<or> (65 \<le> n \<and> n \<le> 90) \<or> n = 95 \<or> (97 \<le> n \<and> n \<le> 122) \<or>
     n = 170 \<or> n = 178 \<or> n = 179 \<or> n = 181 \<or> n = 185 \<or> n = 186 \<or>
     (188 \<le> n \<and> n \<le> 190) \<or> (192 \<le> n \<and> n \<le> 214) \<or> (216 \<le> n \<and> n \<le> 246) \<or>
     (248 \<le> n \<and> n \<le> 255))"

text \<open>
  \<^verbatim>\<open>re.sub(r'\bAND\b', '', query)\<close>: a left-to-right scan for non-overlapping
  matches. The flag says whether the character before the current position is a word
  character (false at the start of the string). A match needs a word boundary before
  the \<^verbatim>\<open>A\<close> and one after the \<^verbatim>\<open>D\<close>; after a match the scan resumes behind the
  \<^verbatim>\<open>D\<close>, which is a word character.
\<close>

definition and_at :: "bool \<Rightarrow> char \<Rightarrow> string \<Rightarrow> bool" where
  "and_at prev c cs = (\<not> prev \<and> c = CHR ''A'' \<and> take 2 cs = ''ND'' \<and>
     (drop 2 cs = [] \<or> \<not> is_word (hd (drop 2 cs))))"

fun sub_AND :: "bool \<Rightarrow> string \<Rightarrow> string" where
  "sub_AND prev [] = []"
| "sub_AND prev (c # cs) =
     (if and_at prev c cs then sub_AND True (drop 2 cs)
      else c # sub_AND (is_word c) cs)"

text \<open>\<^verbatim>\<open>re.sub(r'[()]', '', query)\<close>\<close>

definition sub_parens :: "string \<Rightarrow> string" where
  "sub_parens q = filter (\<lambda>c. c \<noteq> CHR ''('' \<and> c \<noteq> CHR '')'') q"

text \<open>\<^verbatim>\<open>re.sub(r'\s+', ' ', query)\<close>: every maximal run of whitespace becomes one space.\<close>

function sub_spaces :: "string \<Rightarrow> string" where
  "sub_spaces [] = []"
| "sub_spaces (c # cs) =
     (if is_space c then CHR '' '' # sub_spaces (dropWhile is_space cs)
      else c # sub_spaces cs)"
  by pat_completeness auto
termination
  by (relation "measure length") (auto simp: less_Suc_eq_le length_dropWhile_le)

text \<open>\<^verbatim>\<open>str.strip()\<close>: leading and trailing whitespace removed.\<close>

definition strip :: "string \<Rightarrow> string" where
  "strip s = rev (dropWhile is_space (rev (dropWhile is_space s)))"

definition sanitize_query :: "string \<Rightarrow> string" where
  "sanitize_query query = strip (sub_spaces (sub_parens (sub_AND False query)))"

text \<open>The right half of \<^const>\<open>strip\<close>, named for the proofs.\<close>

definition rstrip :: "string \<Rightarrow> string" where
  "rstrip s = rev (dropWhile is_space (rev s))"

section \<open>Data model\<close>

text \<open>
  A result item is the dictionary built by \<^verbatim>\<open>_parse_posts\<close>; the engine only ever reads
  its \<^verbatim>\<open>"id"\<close> key, the other keys are carried along.
\<close>

record post =
  post_id :: string
  post_subreddit :: string
  post_title :: string

text \<open>
  The \<^verbatim>\<open>QueryPlan\<close> dataclass. The dictionary \<^verbatim>\<open>sub_queries\<close> is an association
  list in insertion order, read with \<^const>\<open>map_of\<close>.
\<close>

record QueryPlan =
  intent :: string
  subreddits :: "string list"
  sub_queries :: "(string \<times> string list) list"
  global_queries :: "string list"
  mode :: string
  source :: string

definition queries_for_sub :: "QueryPlan \<Rightarrow> string \<Rightarrow> string list" where
  "queries_for_sub plan sub_name =
     (case map_of (sub_queries plan) sub_name of
        Some qs \<Rightarrow> if qs \<noteq> [] then qs else global_queries plan
      | None \<Rightarrow> global_queries plan)"

text \<open>
  The warnings appended to \<^verbatim>\<open>search_metadata["warnings"]\<close>, by the message they
  stand for: \<^verbatim>\<open>"Pipeline timeout during Phase 1 breadth"\<close>, and
  \<^verbatim>\<open>"{failed}/{checked} suggested subs failed validation; LLM quality may be degraded"\<close>.
\<close>

datatype warning = TimeoutPhase1 | ValidationFailed nat nat

record search_metadata =
  plan_source :: string
  meta_intent :: string
  subreddits_suggested :: nat
  subreddits_validated :: nat
  subreddits_searched :: nat
  subreddits_yielded :: nat
  total_queries_executed :: nat
  posts_before_dedup :: nat
  posts_after_dedup :: nat
  backfill_triggered :: bool
  global_fallback_triggered :: bool
  warnings :: "warning list"

datatype exception =
  ZeroDivisionError | RequestException | HTTPError | JSONDecodeError | RecursionError

section \<open>The environment\<close>

text \<open>
  Everything outside the program is a function of the history of the program's own
  effects, most recent event first: the posts a call of \<^verbatim>\<open>_search_posts\<close> returns,
  the reading of \<^verbatim>\<open>time.monotonic()\<close>, the outcome of an HTTP request. Theorems
  quantify over all such functions. Time is counted in integer ticks; the program only
  compares readings with the deadline.
\<close>

datatype event =
    Search string string "string option" int
  | Sleep
  | Clock
  | Get string "(string \<times> string) list option"
  | Backoff nat
  | About string

type_synonym history = "event list"

record env =
  search_posts :: "history \<Rightarrow> string \<Rightarrow> string \<Rightarrow> string option \<Rightarrow> int \<Rightarrow> post list"
  monotonic :: "history \<Rightarrow> int"

section \<open>Fan-out search engine\<close>

text \<open>The local variables of \<^verbatim>\<open>_fan_out_search\<close>, the metadata dictionary and the history.\<close>

record fan_state =
  all_posts :: "post list"
  seen_ids :: "string set"
  yielding_subs :: "string list"
  queries_executed :: nat
  quote_retries :: nat
  meta :: search_metadata
  hist :: history

text \<open>Python's \<^verbatim>\<open>a // b\<close> on integers raises on a zero divisor and floors otherwise.\<close>

definition py_floordiv :: "int \<Rightarrow> int \<Rightarrow> exception + int" where
  "py_floordiv a b = (if b = 0 then Inl ZeroDivisionError else Inr (a div b))"

text \<open>\<^verbatim>\<open>xs[:n]\<close>: a negative \<^verbatim>\<open>n\<close> counts from the end.\<close>

definition py_slice_to :: "'a list \<Rightarrow> int \<Rightarrow> 'a list" where
  "py_slice_to xs n = (if 0 \<le> n then take (nat n) xs else take (length xs - nat (- n)) xs)"

definition per_query_limit :: "QueryPlan \<Rightarrow> int \<Rightarrow> exception + int" where
  "per_query_limit plan post_limit =
     (let num_subs = int (length (subreddits plan)) in
      case py_floordiv post_limit (max num_subs 1) of
        Inl e \<Rightarrow> Inl e
      | Inr d \<Rightarrow> Inr (max 2 (min 5 d)))"

definition timed_out :: "env \<Rightarrow> int \<Rightarrow> fan_state \<Rightarrow> bool \<times> fan_state" where
  "timed_out e deadline st = (monotonic e (hist st) > deadline, st\<lparr>hist := Clock # hist st\<rparr>)"

definition sleep :: "fan_state \<Rightarrow> fan_state" where
  "sleep st = st\<lparr>hist := Sleep # hist st\<rparr>"

definition run_query ::
  "env \<Rightarrow> string \<Rightarrow> string option \<Rightarrow> string \<Rightarrow> int \<Rightarrow> fan_state \<Rightarrow> post list \<times> fan_state" where
  "run_query e srt sub query_str limit st =
     (let sanitized = sanitize_query query_str in
      if sanitized = [] then ([], st)
      else (search_posts e (hist st) sanitized srt sub limit,
            st\<lparr>queries_executed := queries_executed st + 1,
               hist := Search sanitized srt sub limit # hist st\<rparr>))"

fun collect :: "post list \<Rightarrow> fan_state \<Rightarrow> nat \<times> fan_state" where
  "collect [] st = (0, st)"
| "collect (p # ps) st =
     (if post_id p \<notin> seen_ids st then
        (let (added, st') = collect ps (st\<lparr>seen_ids := insert (post_id p) (seen_ids st),
                                             all_posts := all_posts st @ [p]\<rparr>)
         in (added + 1, st'))
      else collect ps st)"

text \<open>
  The quote fallback, written out twice in the source (Phase 1 and Phase 2) with the same
  text: \<^verbatim>\<open>if not posts and '"' in query_str\<close>, run the query again with
  \<^verbatim>\<open>query_str.replace('"', '')\<close> and count the retry.
\<close>

definition strip_quotes :: "string \<Rightarrow> string" where
  "strip_quotes q = filter (\<lambda>c. c \<noteq> CHR 0x22) q"

definition quote_fallback ::
  "env \<Rightarrow> string \<Rightarrow> string \<Rightarrow> string \<Rightarrow> int \<Rightarrow> post list \<times> fan_state \<Rightarrow> post list \<times> fan_state" where
  "quote_fallback e srt sub query_str limit r =
     (case r of (posts, st) \<Rightarrow>
        if posts = [] \<and> CHR 0x22 \<in> set query_str then
          (let stripped = strip_quotes query_str;
               (posts', st') = run_query e srt (Some sub) stripped limit st
           in (posts', st'\<lparr>quote_retries := quote_retries st' + 1\<rparr>))
        else (posts, st))"

definition query_with_fallback ::
  "env \<Rightarrow> string \<Rightarrow> string \<Rightarrow> string \<Rightarrow> int \<Rightarrow> fan_state \<Rightarrow> post list \<times> fan_state" where
  "query_with_fallback e srt sub query_str limit st =
     quote_fallback e srt sub query_str limit (run_query e srt (Some sub) query_str limit st)"

text \<open>Phase 1: the body of the loop for one community, after the deadline check.\<close>

definition phase1_step ::
  "env \<Rightarrow> QueryPlan \<Rightarrow> string \<Rightarrow> int \<Rightarrow> string \<Rightarrow> fan_state \<Rightarrow> fan_state" where
  "phase1_step e plan srt limit sub st =
     (let queries = queries_for_sub plan sub in
      if queries = [] then st
      else
        (let first_query = hd queries;
             (posts, st1) = query_with_fallback e srt sub first_query limit st;
             (new_count, st2) = collect posts st1;
             st3 = (if new_count > 0 then st2\<lparr>yielding_subs := yielding_subs st2 @ [sub]\<rparr> else st2)
         in sleep st3))"

fun phase1 ::
  "env \<Rightarrow> QueryPlan \<Rightarrow> string \<Rightarrow> int \<Rightarrow> int \<Rightarrow> string list \<Rightarrow> fan_state \<Rightarrow> fan_state" where
  "phase1 e plan srt limit deadline [] st = st"
| "phase1 e plan srt limit deadline (sub # subs) st =
     (let (expired, st1) = timed_out e deadline st in
      if expired then
        st1\<lparr>meta := (meta st1)\<lparr>warnings := warnings (meta st1) @ [TimeoutPhase1]\<rparr>\<rparr>
      else phase1 e plan srt limit deadline subs (phase1_step e plan srt limit sub st1))"

text \<open>
  Phase 2: the inner loop over \<^verbatim>\<open>queries[1:]\<close> and the outer loop over the yielding
  communities. In \<^verbatim>\<open>len(all_posts) >= post_limit or _timed_out()\<close> the clock is read only
  when the cap is not reached.
\<close>

fun phase2_queries ::
  "env \<Rightarrow> string \<Rightarrow> int \<Rightarrow> int \<Rightarrow> int \<Rightarrow> string \<Rightarrow> string list \<Rightarrow> fan_state \<Rightarrow> fan_state" where
  "phase2_queries e srt limit post_limit deadline sub [] st = st"
| "phase2_queries e srt limit post_limit deadline sub (query_str # rest) st =
     (if int (length (all_posts st)) \<ge> post_limit then st
      else
        (let (expired, st1) = timed_out e deadline st in
         if expired then st1
         else
           (let (posts, st2) = query_with_fallback e srt sub query_str limit st1;
                (added, st3) = collect posts st2
            in phase2_queries e srt limit post_limit deadline sub rest (sleep st3))))"

fun phase2_subs ::
  "env \<Rightarrow> QueryPlan \<Rightarrow> string \<Rightarrow> int \<Rightarrow> int \<Rightarrow> int \<Rightarrow> string list \<Rightarrow> fan_state \<Rightarrow> fan_state" where
  "phase2_subs e plan srt limit post_limit deadline [] st = st"
| "phase2_subs e plan srt limit post_limit deadline (sub # subs) st =
     (if int (length (all_posts st)) \<ge> post_limit then st
      else
        (let (expired, st1) = timed_out e deadline st in
         if expired then st1
         else phase2_subs e plan srt limit post_limit deadline subs
                (phase2_queries e srt limit post_limit deadline sub
                   (drop 1 (queries_for_sub plan sub)) st1)))"

definition phase2 ::
  "env \<Rightarrow> QueryPlan \<Rightarrow> string \<Rightarrow> int \<Rightarrow> int \<Rightarrow> int \<Rightarrow> fan_state \<Rightarrow> fan_state" where
  "phase2 e plan srt limit post_limit deadline st =
     (if int (length (all_posts st)) < post_limit \<and> yielding_subs st \<noteq> [] then
        phase2_subs e plan srt limit post_limit deadline (yielding_subs st) st
      else st)"

text \<open>Global fallback: the loop over \<^verbatim>\<open>plan.global_queries\<close>, and the guard around it.\<close>

fun global_loop ::
  "env \<Rightarrow> string \<Rightarrow> int \<Rightarrow> int \<Rightarrow> string list \<Rightarrow> fan_state \<Rightarrow> fan_state" where
  "global_loop e srt post_limit deadline [] st = st"
| "global_loop e srt post_limit deadline (gq # rest) st =
     (if int (length (all_posts st)) \<ge> post_limit then st
      else
        (let (expired, st1) = timed_out e deadline st in
         if expired then st1
         else
           (let (posts, st2) = run_query e srt None gq
                                 (post_limit - int (length (all_posts st1))) st1;
                (added, st3) = collect posts st2
            in global_loop e srt post_limit deadline rest (sleep st3))))"

definition global_fallback ::
  "env \<Rightarrow> QueryPlan \<Rightarrow> string \<Rightarrow> int \<Rightarrow> int \<Rightarrow> fan_state \<Rightarrow> fan_state" where
  "global_fallback e plan srt post_limit deadline st =
     (let threshold = max 5 (post_limit div 4) in
      if int (length (all_posts st)) < threshold then
        (let (expired, st1) = timed_out e deadline st in
         if \<not> expired then
           global_loop e srt post_limit deadline (global_queries plan)
             (st1\<lparr>meta := (meta st1)\<lparr>global_fallback_triggered := True\<rparr>\<rparr>)
         else st1)
      else st)"

text \<open>The state after Phase 1 and Phase 2, with the metadata written between them.\<close>

definition init_state :: "search_metadata \<Rightarrow> history \<Rightarrow> fan_state" where
  "init_state m h = \<lparr>all_posts = [], seen_ids = {}, yielding_subs = [], queries_executed = 0,
     quote_retries = 0, meta = m, hist = h\<rparr>"

definition after_phase1 ::
  "env \<Rightarrow> QueryPlan \<Rightarrow> string \<Rightarrow> int \<Rightarrow> int \<Rightarrow> fan_state \<Rightarrow> fan_state" where
  "after_phase1 e plan srt limit deadline st0 =
     (let st = phase1 e plan srt limit deadline (subreddits plan) st0 in
      st\<lparr>meta := (meta st)\<lparr>subreddits_searched := length (subreddits plan),
                             subreddits_yielded := length (yielding_subs st)\<rparr>\<rparr>)"

definition after_phase2 ::
  "env \<Rightarrow> QueryPlan \<Rightarrow> string \<Rightarrow> int \<Rightarrow> int \<Rightarrow> int \<Rightarrow> fan_state \<Rightarrow> fan_state" where
  "after_phase2 e plan srt limit post_limit deadline st0 =
     (let st = phase2 e plan srt limit post_limit deadline
                 (after_phase1 e plan srt limit deadline st0) in
      st\<lparr>meta := (meta st)\<lparr>posts_before_dedup := queries_executed st,
                             posts_after_dedup := length (all_posts st),
                             total_queries_executed := queries_executed st\<rparr>\<rparr>)"

text \<open>
  \<^verbatim>\<open>_fan_out_search\<close>: the returned list, the metadata dictionary it has mutated, and
  the history.
\<close>

definition fan_out_search ::
  "env \<Rightarrow> QueryPlan \<Rightarrow> int \<Rightarrow> string \<Rightarrow> search_metadata \<Rightarrow> int \<Rightarrow> history
     \<Rightarrow> exception + (post list \<times> search_metadata \<times> history)" where
  "fan_out_search e plan post_limit srt m deadline h =
     (case per_query_limit plan post_limit of
        Inl err \<Rightarrow> Inl err
      | Inr limit \<Rightarrow>
          (let st = global_fallback e plan srt post_limit deadline
                      (after_phase2 e plan srt limit post_limit deadline (init_state m h))
           in Inr (py_slice_to (all_posts st) post_limit, meta st, hist st)))"

section \<open>Notions used to state the properties\<close>

text \<open>
  Deduplication by identifier, as the specification words it: going through a list in
  order, an item is kept only on the first sighting of its identifier. The set holds
  the identifiers already seen.
\<close>

fun dedup_by_id :: "string set \<Rightarrow> post list \<Rightarrow> post list" where
  "dedup_by_id seen [] = []"
| "dedup_by_id seen (p # ps) =
     (if post_id p \<in> seen then dedup_by_id seen ps
      else p # dedup_by_id (insert (post_id p) seen) ps)"

text \<open>
  The posts returned by all the searches among the events \<open>new\<close> (most recent first)
  that follow the history \<open>h0\<close>, concatenated in the order the searches were made.
\<close>

fun responses :: "env \<Rightarrow> history \<Rightarrow> history \<Rightarrow> post list" where
  "responses e h0 [] = []"
| "responses e h0 (ev # evs) =
     responses e h0 evs @
     (case ev of Search q s sub l \<Rightarrow> search_posts e (evs @ h0) q s sub l | _ \<Rightarrow> [])"

text \<open>
  The invariant of the engine between a search and the collection of its result:
  what has been collected, followed by what collecting \<open>posts\<close> will add, is the
  deduplication of everything the searches have returned so far.
\<close>

definition pending :: "env \<Rightarrow> history \<Rightarrow> post list \<Rightarrow> fan_state \<Rightarrow> bool" where
  "pending e h0 posts st \<longleftrightarrow>
     (\<exists>new. hist st = new @ h0 \<and>
        dedup_by_id {} (responses e h0 new) = all_posts st @ dedup_by_id (seen_ids st) posts) \<and>
     seen_ids st = post_id ` set (all_posts st)"

section \<open>A concrete run\<close>

text \<open>
  Three communities; the first answers every query with posts 1 and 2, the third with
  posts 2 and 3, the second with nothing; unscoped searches return nothing. The clock
  advances by one tick per event.
\<close>

definition mk_post :: "string \<Rightarrow> post" where
  "mk_post i = \<lparr>post_id = i, post_subreddit = ''s'', post_title = ''t''\<rparr>"

definition meta0 :: search_metadata where
  "meta0 = \<lparr>plan_source = ''unknown'', meta_intent = '''', subreddits_suggested = 0,
     subreddits_validated = 0, subreddits_searched = 0, subreddits_yielded = 0,
     total_queries_executed = 0, posts_before_dedup = 0, posts_after_dedup = 0,
     backfill_triggered = False, global_fallback_triggered = False, warnings = []\<rparr>"

definition env_ex :: env where
  "env_ex = \<lparr>search_posts = (\<lambda>h q s sub l.
       if sub = Some ''a'' then [mk_post ''1'', mk_post ''2'']
       else if sub = Some ''c'' then [mk_post ''2'', mk_post ''3'']
       else []),
     monotonic = (\<lambda>h. int (length h))\<rparr>"

definition plan_ex :: QueryPlan where
  "plan_ex = \<lparr>intent = ''i'', subreddits = [''a'', ''b'', ''c''],
     sub_queries = [(''a'', [''x'', ''y'']), (''b'', [''u'', ''v'']),
                    (''c'', [[CHR 0x22, CHR ''w'', CHR 0x22], ''z''])],
     global_queries = [''g1'', ''g2''], mode = ''pain'', source = ''llm''\<rparr>"


text \<open>An environment in which every search comes back empty and the clock stands still.\<close>

definition env_empty :: env where
  "env_empty = \<lparr>search_posts = (\<lambda>h q s sub l. []), monotonic = (\<lambda>h. 0)\<rparr>"


text \<open>
  The queries searched among the events \<open>evs\<close> (most recent first), in the order they
  were made, each with the community it was scoped to.
\<close>

fun search_queries :: "history \<Rightarrow> (string \<times> string option) list" where
  "search_queries [] = []"
| "search_queries (ev # evs) =
     search_queries evs @ (case ev of Search q s sub l \<Rightarrow> [(q, sub)] | _ \<Rightarrow> [])"

text \<open>The global queries as they would be searched: sanitized, the empty ones skipped, unscoped.\<close>

definition wanted_global :: "string list \<Rightarrow> (string \<times> string option) list" where
  "wanted_global gqs = map (\<lambda>q. (q, None)) (filter (\<lambda>q. q \<noteq> []) (map sanitize_query gqs))"

text \<open>
  The searches that running the queries \<open>qs\<close> in community \<open>sub\<close> with the quote
  fallback can make, and the events Phase 2 can produce for the yielding communities
  \<open>ys\<close>: clock readings, sleeps, and searches for the queries after the first of a
  yielding community. Likewise for Phase 1 and the first query of each community.
\<close>

definition query_events :: "string \<Rightarrow> int \<Rightarrow> string \<Rightarrow> string list \<Rightarrow> event set" where
  "query_events srt l sub qs =
     (\<Union>q \<in> set qs. {Search (sanitize_query q) srt (Some sub) l,
                       Search (sanitize_query (strip_quotes q)) srt (Some sub) l})"

definition phase2_events :: "QueryPlan \<Rightarrow> string \<Rightarrow> int \<Rightarrow> string list \<Rightarrow> event set" where
  "phase2_events plan srt l ys =
     {Sleep, Clock} \<union> (\<Union>c \<in> set ys. query_events srt l c (drop 1 (queries_for_sub plan c)))"

definition phase1_events :: "QueryPlan \<Rightarrow> string \<Rightarrow> int \<Rightarrow> string list \<Rightarrow> event set" where
  "phase1_events plan srt l subs =
     {Sleep, Clock} \<union> (\<Union>c \<in> set subs. query_events srt l c (take 1 (queries_for_sub plan c)))"


text \<open>
  What the engine holds once the events \<open>evs\<close> have followed the state \<open>st\<close>: the posts
  of \<open>st\<close>, then the posts returned by the searches among \<open>evs\<close> whose identifier had not
  been seen. The state \<open>st'\<close> continues \<open>st\<close> by \<open>evs\<close> when its history, its posts and its
  seen identifiers are those.
\<close>

definition collected_after :: "env \<Rightarrow> fan_state \<Rightarrow> history \<Rightarrow> post list" where
  "collected_after e st evs =
     all_posts st @ dedup_by_id (seen_ids st) (responses e (hist st) evs)"

definition continues :: "env \<Rightarrow> fan_state \<Rightarrow> history \<Rightarrow> fan_state \<Rightarrow> bool" where
  "continues e st evs st' \<longleftrightarrow>
     hist st' = evs @ hist st \<and>
     all_posts st' = collected_after e st evs \<and>
     seen_ids st' = seen_ids st \<union> post_id ` set (responses e (hist st) evs)"

text \<open>
  The moment after the events \<open>rest\<close> is in time when the clock, read then, is not past
  the deadline and fewer than \<open>cap\<close> posts are held.
\<close>

definition in_time :: "env \<Rightarrow> int \<Rightarrow> int \<Rightarrow> fan_state \<Rightarrow> history \<Rightarrow> bool" where
  "in_time e cap deadline st rest \<longleftrightarrow>
     \<not> deadline < monotonic e (rest @ hist st) \<and>
     int (length (collected_after e st rest)) < cap"

text \<open>
  The discipline of the global fallback on the events \<open>evs\<close> that follow \<open>st\<close>: every
  search comes right after a reading of the clock made in time, is unscoped, and asks
  for as many posts as were missing then.
\<close>

fun global_discipline :: "env \<Rightarrow> int \<Rightarrow> int \<Rightarrow> fan_state \<Rightarrow> history \<Rightarrow> bool" where
  "global_discipline e cap deadline st [] = True"
| "global_discipline e cap deadline st (ev # evs) =
     (global_discipline e cap deadline st evs \<and>
      (case ev of
         Search q s sub k \<Rightarrow>
           sub = None \<and>
           (case evs of
              Clock # rest \<Rightarrow>
                in_time e cap deadline st rest \<and>
                k = cap - int (length (collected_after e st rest))
            | _ \<Rightarrow> False)
       | _ \<Rightarrow> True))"

text \<open>
  The discipline of Phase 2 on the events \<open>evs\<close> that follow \<open>st\<close>: every search comes
  right after a reading of the clock made in time, or right after a search in the same
  community whose query held a double quote and which returned nothing.
\<close>

fun phase2_discipline :: "env \<Rightarrow> int \<Rightarrow> int \<Rightarrow> fan_state \<Rightarrow> history \<Rightarrow> bool" where
  "phase2_discipline e cap deadline st [] = True"
| "phase2_discipline e cap deadline st (ev # evs) =
     (phase2_discipline e cap deadline st evs \<and>
      (case ev of
         Search q s sub k \<Rightarrow>
           (case evs of
              Clock # rest \<Rightarrow> in_time e cap deadline st rest
            | Search q0 s0 sub0 k0 # rest \<Rightarrow>
                CHR 0x22 \<in> set q0 \<and> sub0 = sub \<and>
                search_posts e (rest @ hist st) q0 s0 sub0 k0 = []
            | _ \<Rightarrow> False)
       | _ \<Rightarrow> True))"

text \<open>
  The communities that contributed among the events \<open>evs\<close> that follow \<open>st\<close>: one entry
  for each search scoped to a community that returned a post whose identifier had not
  been seen before, in the order of the searches.
\<close>

fun contributors :: "env \<Rightarrow> fan_state \<Rightarrow> history \<Rightarrow> string list" where
  "contributors e st [] = []"
| "contributors e st (ev # evs) =
     contributors e st evs @
     (case ev of
        Search q s (Some c) k \<Rightarrow>
          (if dedup_by_id (seen_ids st \<union> post_id ` set (responses e (hist st) evs))
                (search_posts e (evs @ hist st) q s (Some c) k) \<noteq> []
           then [c] else [])
      | _ \<Rightarrow> [])"

section \<open>LLM plan parsing\<close>

text \<open>
  \<^verbatim>\<open>_parse_query_plan\<close>, from the point where the JSON text has been decoded. The
  argument is the decoded object, or \<open>None\<close> when no JSON object could be extracted
  from the answer; a key that is absent from the object is \<open>None\<close> and takes the
  default of the \<^verbatim>\<open>.get\<close> that reads it.
\<close>

record parsed_plan =
  p_intent :: "string option"
  p_subreddits :: "string list option"
  p_sub_queries :: "(string \<times> string list) list option"
  p_global_queries :: "string list option"

text \<open>
  The empty-field guard: \<^verbatim>\<open>for sub in subreddits: if sub not in sub_queries or not
  sub_queries[sub]: sub_queries[sub] = global_queries[:2] if global_queries else [intent]\<close>.
\<close>

definition guard_queries :: "string list \<Rightarrow> string \<Rightarrow> string list" where
  "guard_queries global_qs intent_str = (if global_qs \<noteq> [] then take 2 global_qs else [intent_str])"

fun fill_sub_queries ::
  "string list \<Rightarrow> (string \<times> string list) list \<Rightarrow> string list \<Rightarrow> string
     \<Rightarrow> (string \<times> string list) list" where
  "fill_sub_queries [] sq global_qs intent_str = sq"
| "fill_sub_queries (sub # subs) sq global_qs intent_str =
     fill_sub_queries subs
       (if map_of sq sub = None \<or> map_of sq sub = Some []
        then AList.update sub (guard_queries global_qs intent_str) sq
        else sq)
       global_qs intent_str"

definition parse_query_plan :: "parsed_plan option \<Rightarrow> string \<Rightarrow> QueryPlan option" where
  "parse_query_plan parsed md =
     (case parsed of
        None \<Rightarrow> None
      | Some p \<Rightarrow>
          (let subs = (case p_subreddits p of None \<Rightarrow> [] | Some x \<Rightarrow> x);
               sq = (case p_sub_queries p of None \<Rightarrow> [] | Some x \<Rightarrow> x);
               global_qs = (case p_global_queries p of None \<Rightarrow> [] | Some x \<Rightarrow> x);
               intent_str = (case p_intent p of None \<Rightarrow> [] | Some x \<Rightarrow> x)
           in if subs = [] then None
              else Some \<lparr>intent = intent_str, subreddits = subs,
                         sub_queries = fill_sub_queries subs sq global_qs intent_str,
                         global_queries = (if global_qs \<noteq> [] then global_qs else [intent_str]),
                         mode = md, source = ''llm''\<rparr>))"

text \<open>An answer naming one community without queries, and three global queries.\<close>

definition parsed_ex :: parsed_plan where
  "parsed_ex = \<lparr>p_intent = Some ''i'', p_subreddits = Some [''a'', ''b''],
     p_sub_queries = Some [(''b'', [''u''])],
     p_global_queries = Some [''g1'', ''g2'', ''g3'']\<rparr>"

section \<open>Fetch client\<close>

text \<open>
  What \<^verbatim>\<open>session.get\<close> can do: raise an exception (a
  \<^verbatim>\<open>requests.RequestException\<close> on a connection error, a timeout or exhausted
  retries), or return a response, of which the client reads the status code, the
  \<^verbatim>\<open>Content-Type\<close> header (empty when absent) and the body. Decoding the body with
  \<^verbatim>\<open>resp.json()\<close> gives a value or raises: the decoder's \<^verbatim>\<open>ValueError\<close> on text
  that is not JSON, \<^verbatim>\<open>RecursionError\<close> on JSON nested deeper than the interpreter's
  recursion limit. Which exception is raised is the environment's choice, not the
  model's. The outcome of a request is a function of the history, the URL and the
  parameters.
\<close>

record 'j response =
  status_code :: nat
  content_type :: string
  body :: "exception + 'j"

datatype 'j http_outcome = Raises exception | Responds "'j response"

type_synonym params = "(string \<times> string) list option"

type_synonym 'j http = "history \<Rightarrow> string \<Rightarrow> params \<Rightarrow> 'j http_outcome"

text \<open>
  The two classes the client catches; \<^verbatim>\<open>HTTPError\<close> is a
  \<^verbatim>\<open>RequestException\<close>, the decoder's error a \<^verbatim>\<open>ValueError\<close>;
  \<^verbatim>\<open>RecursionError\<close> (a \<^verbatim>\<open>RuntimeError\<close>) and \<^verbatim>\<open>ZeroDivisionError\<close> (an
  \<^verbatim>\<open>ArithmeticError\<close>) are neither.
\<close>

definition isinstance_RequestException :: "exception \<Rightarrow> bool" where
  "isinstance_RequestException ex \<longleftrightarrow> ex = RequestException \<or> ex = HTTPError"

definition isinstance_ValueError :: "exception \<Rightarrow> bool" where
  "isinstance_ValueError ex \<longleftrightarrow> ex = JSONDecodeError"

definition backoff_delays :: "nat list" where
  "backoff_delays = [5, 10, 20]"

text \<open>\<^verbatim>\<open>x in s\<close> on strings.\<close>

fun str_contains :: "string \<Rightarrow> string \<Rightarrow> bool" where
  "str_contains x [] = (x = [])"
| "str_contains x (c # cs) = (prefix x (c # cs) \<or> str_contains x cs)"

definition raise_for_status :: "'j response \<Rightarrow> exception + unit" where
  "raise_for_status resp =
     (if 400 \<le> status_code resp \<and> status_code resp < 600 then Inl HTTPError else Inr ())"

text \<open>\<^verbatim>\<open>resp.json()\<close>: the decoded body, or the exception that decoding it raises.\<close>

definition json_of :: "'j response \<Rightarrow> exception + 'j" where
  "json_of resp = body resp"

text \<open>
  One pass through the body of the \<^verbatim>\<open>try\<close>: it raises, returns, or sleeps and
  continues with the next attempt.
\<close>

datatype 'j step = Return "'j option" | Continue

definition try_attempt :: "'j http_outcome \<Rightarrow> nat \<Rightarrow> history \<Rightarrow> (exception + 'j step) \<times> history" where
  "try_attempt out attempt h =
     (case out of
        Raises ex \<Rightarrow> (Inl ex, h)
      | Responds resp \<Rightarrow>
          if status_code resp = 429 then
            (if attempt < length backoff_delays
             then (Inr Continue, Backoff (backoff_delays ! attempt) # h)
             else (Inr (Return None), h))
          else if \<not> str_contains ''json'' (content_type resp) \<and>
                  \<not> str_contains ''javascript'' (content_type resp)
          then (Inr (Return None), h)
          else
            (case raise_for_status resp of
               Inl ex \<Rightarrow> (Inl ex, h)
             | Inr u \<Rightarrow>
                 (case json_of resp of
                    Inl ex \<Rightarrow> (Inl ex, h)
                  | Inr j \<Rightarrow> (Inr (Return (Some j)), h))))"

text \<open>The two \<^verbatim>\<open>except\<close> clauses; any other exception propagates.\<close>

definition handle_exceptions :: "exception + 'j step \<Rightarrow> exception + 'j step" where
  "handle_exceptions r =
     (case r of
        Inl ex \<Rightarrow>
          if isinstance_RequestException ex then Inr (Return None)
          else if isinstance_ValueError ex then Inr (Return None)
          else Inl ex
      | Inr s \<Rightarrow> Inr s)"

fun fetch_attempts ::
  "'j http \<Rightarrow> string \<Rightarrow> params \<Rightarrow> nat list \<Rightarrow> history \<Rightarrow> (exception + 'j option) \<times> history" where
  "fetch_attempts get url ps [] h = (Inr None, h)"
| "fetch_attempts get url ps (attempt # rest) h =
     (let (r, h') = try_attempt (get h url ps) attempt (Get url ps # h) in
      case handle_exceptions r of
        Inl ex \<Rightarrow> (Inl ex, h')
      | Inr (Return v) \<Rightarrow> (Inr v, h')
      | Inr Continue \<Rightarrow> fetch_attempts get url ps rest h')"

definition fetch_json :: "'j http \<Rightarrow> string \<Rightarrow> params \<Rightarrow> history \<Rightarrow> (exception + 'j option) \<times> history" where
  "fetch_json get url ps h = fetch_attempts get url ps [0..<length backoff_delays + 1] h"

text \<open>The delays slept and the requests made among the events \<open>evs\<close>, oldest first.\<close>

fun backoffs :: "history \<Rightarrow> nat list" where
  "backoffs [] = []"
| "backoffs (ev # evs) = backoffs evs @ (case ev of Backoff d \<Rightarrow> [d] | _ \<Rightarrow> [])"

fun requests_made :: "history \<Rightarrow> nat" where
  "requests_made [] = 0"
| "requests_made (ev # evs) = requests_made evs + (case ev of Get u p \<Rightarrow> 1 | _ \<Rightarrow> 0)"

text \<open>
  A server that always answers 429, one that is rate limited twice and then answers,
  and one that answers with JSON nested too deep to decode.
\<close>

definition always_429 :: "nat http" where
  "always_429 h url ps = Responds \<lparr>status_code = 429, content_type = ''text/html'', body = Inl JSONDecodeError\<rparr>"

definition twice_429 :: "nat http" where
  "twice_429 h url ps =
     (if requests_made h < 2
      then Responds \<lparr>status_code = 429, content_type = ''text/html'', body = Inl JSONDecodeError\<rparr>
      else Responds \<lparr>status_code = 200, content_type = ''application/json; charset=UTF-8'',
                     body = Inr 7\<rparr>)"

definition deep_json :: "nat http" where
  "deep_json h url ps =
     Responds \<lparr>status_code = 200, content_type = ''application/json; charset=UTF-8'',
               body = Inl RecursionError\<rparr>"

section \<open>Validation of the LLM plan\<close>

text \<open>
  What \<^verbatim>\<open>_validate_subreddits\<close> reads from the answer of
  \<^verbatim>\<open>/r/<name>/about.json\<close>: the \<^verbatim>\<open>kind\<close>, and from \<^verbatim>\<open>data\<close> the display
  name (absent: the name asked for), the subscriber count and the adult flag. The
  answer is a function of the history and the name; \<open>None\<close> is an absent or empty
  answer.
\<close>

record about =
  about_kind :: string
  about_display_name :: "string option"
  about_subscribers :: int
  about_over18 :: bool

type_synonym about_env = "history \<Rightarrow> string \<Rightarrow> about option"

definition validate_one :: "string \<Rightarrow> about option \<Rightarrow> (string \<times> int) list \<Rightarrow> (string \<times> int) list" where
  "validate_one name data valid =
     (case data of
        None \<Rightarrow> valid
      | Some a \<Rightarrow>
          if about_kind a = ''t5'' then
            (let display = (case about_display_name a of None \<Rightarrow> name | Some d \<Rightarrow> d) in
             if \<not> about_over18 a then AList.update display (about_subscribers a) valid
             else valid)
          else valid)"

fun validate_loop ::
  "about_env \<Rightarrow> string list \<Rightarrow> (string \<times> int) list \<Rightarrow> history \<Rightarrow> (string \<times> int) list \<times> history" where
  "validate_loop ab [] valid h = (valid, h)"
| "validate_loop ab (name # names) valid h =
     validate_loop ab names (validate_one name (ab h name) valid) (Sleep # About name # h)"

definition validate_subreddits ::
  "about_env \<Rightarrow> string list \<Rightarrow> int \<Rightarrow> history \<Rightarrow> (string \<times> int) list \<times> history" where
  "validate_subreddits ab names max_checks h =
     validate_loop ab (py_slice_to names max_checks) [] h"

text \<open>
  The floating-point operations of \<^verbatim>\<open>1 - (len(validated) / checked_count) > 0.30\<close>:
  the division, the subtraction and the constant the literal denotes. They are
  parameters; what is known of them is the standard model of rounding to nearest in
  double precision: each result is within a relative error of \<open>2\<^sup>-\<^sup>5\<^sup>3\<close> of the exact one.
\<close>

record float_ops =
  fdiv :: "real \<Rightarrow> real \<Rightarrow> real"
  fsub :: "real \<Rightarrow> real \<Rightarrow> real"
  f030 :: real

definition float_model :: "float_ops \<Rightarrow> bool" where
  "float_model fl \<longleftrightarrow>
     (\<forall>x y. y \<noteq> 0 \<longrightarrow> \<bar>fdiv fl x y - x / y\<bar> \<le> \<bar>x / y\<bar> / 2 ^ 53) \<and>
     (\<forall>x y. \<bar>fsub fl x y - (x - y)\<bar> \<le> \<bar>x - y\<bar> / 2 ^ 53) \<and>
     \<bar>f030 fl - 3 / 10\<bar> \<le> (3 / 10) / 2 ^ 53"

text \<open>The LLM branch of \<^verbatim>\<open>fetch_posts_noapi\<close>, from the plan to the validated plan.\<close>

definition validate_llm_plan ::
  "float_ops \<Rightarrow> about_env \<Rightarrow> QueryPlan \<Rightarrow> search_metadata \<Rightarrow> history
     \<Rightarrow> QueryPlan \<times> search_metadata \<times> history" where
  "validate_llm_plan fl ab plan m h =
     (let m1 = m\<lparr>plan_source := ''llm'', meta_intent := intent plan,
                 subreddits_suggested := length (subreddits plan)\<rparr>;
          (validated, h1) = validate_subreddits ab (subreddits plan) 20 h;
          m2 = m1\<lparr>subreddits_validated := length validated\<rparr>;
          checked_count = min (length (subreddits plan)) 20;
          m3 = (if checked_count > 0 then
                  (let fail_rate = fsub fl 1 (fdiv fl (real (length validated)) (real checked_count)) in
                   if fail_rate > f030 fl
                   then m2\<lparr>warnings := warnings m2 @
                          [ValidationFailed (checked_count - length validated) checked_count]\<rparr>
                   else m2)
                else m2);
          valid_names = fst ` set validated
      in (plan\<lparr>subreddits := filter (\<lambda>s. s \<in> valid_names) (subreddits plan),
               sub_queries := filter (\<lambda>(s, qs). s \<in> valid_names) (sub_queries plan)\<rparr>,
          m3, h1))"

text \<open>
  A plan naming the community \<^verbatim>\<open>python\<close>, and a site on which it exists under the
  display name \<^verbatim>\<open>Python\<close>.
\<close>

definition plan_python :: QueryPlan where
  "plan_python = \<lparr>intent = ''i'', subreddits = [''python''],
     sub_queries = [(''python'', [''x'', ''y''])], global_queries = [''g''],
     mode = ''pain'', source = ''llm''\<rparr>"

definition about_python :: about_env where
  "about_python h name =
     (if name = ''python'' then Some \<lparr>about_kind = ''t5'', about_display_name = Some ''Python'',
                                      about_subscribers = 1000, about_over18 = False\<rparr>
      else None)"

text \<open>The names asked about among the events \<open>evs\<close>, oldest first.\<close>

fun about_checks :: "history \<Rightarrow> string list" where
  "about_checks [] = []"
| "about_checks (ev # evs) = about_checks evs @ (case ev of About n \<Rightarrow> [n] | _ \<Rightarrow> [])"

text \<open>
  Exact arithmetic, which satisfies the rounding model; and a site on which \<^verbatim>\<open>a\<close>
  and \<^verbatim>\<open>c\<close> exist and \<^verbatim>\<open>b\<close> does not.
\<close>

definition exact_ops :: float_ops where
  "exact_ops = \<lparr>fdiv = (\<lambda>x y. x / y), fsub = (\<lambda>x y. x - y), f030 = 3 / 10\<rparr>"

definition about_ex :: about_env where
  "about_ex h name =
     (if name = ''a'' then Some \<lparr>about_kind = ''t5'', about_display_name = Some ''a'',
                                 about_subscribers = 10, about_over18 = False\<rparr>
      else if name = ''c'' then Some \<lparr>about_kind = ''t5'', about_display_name = None,
                                      about_subscribers = 5, about_over18 = False\<rparr>
      else None)"

section \<open>Properties of the query sanitizer\<close>

lemma space_not_word: "is_space c \<Longrightarrow> \<not> is_word c"
  by (auto simp: is_space_def is_word_def Let_def)

lemma AND_chars [simp]:
  "is_word CHR ''A''" "is_word CHR ''N''" "is_word CHR ''D''"
  "\<not> is_space CHR ''A''" "\<not> is_space CHR ''N''" "\<not> is_space CHR ''D''"
  "is_space CHR '' ''" "\<not> is_word CHR '' ''"
  by (simp_all add: is_space_def is_word_def)

lemma sub_AND_True: "sub_AND True (c # cs) = c # sub_AND (is_word c) cs"
  by (simp add: and_at_def)

lemma and_at_shape:
  "and_at p c cs \<longleftrightarrow> \<not> p \<and> c = CHR ''A'' \<and>
     (\<exists>r. cs = CHR ''N'' # CHR ''D'' # r \<and> (r = [] \<or> \<not> is_word (hd r)))"
proof (cases cs)
  case Nil then show ?thesis by (simp add: and_at_def)
next
  case (Cons a as)
  then show ?thesis by (cases as) (auto simp: and_at_def)
qed

lemma sub_AND_nonword_start:
  "s = [] \<or> \<not> is_word (hd s) \<Longrightarrow> sub_AND p s = sub_AND False s"
  by (cases s) (auto simp: and_at_shape)

lemma sub_AND_length: "length (sub_AND p s) \<le> length s"
proof (induction p s rule: sub_AND.induct)
  case (1 prev) then show ?case by simp
next
  case (2 prev c cs) then show ?case by (auto simp: and_at_shape)
qed

lemma sub_AND_fixed_iff:
  "sub_AND p (c # cs) = c # cs \<longleftrightarrow> \<not> and_at p c cs \<and> sub_AND (is_word c) cs = cs"
proof (cases "and_at p c cs")
  case True
  have "length (sub_AND True (drop 2 cs)) \<le> length cs"
    using sub_AND_length [of True "drop 2 cs"] by simp
  then have "sub_AND True (drop 2 cs) \<noteq> c # cs" by auto
  with True show ?thesis by simp
next
  case False then show ?thesis by simp
qed


lemma rstrip_Nil [simp]: "rstrip [] = []"
  by (simp add: rstrip_def)

lemma rstrip_empty_iff: "rstrip s = [] \<longleftrightarrow> (\<forall>c \<in> set s. is_space c)"
  by (simp add: rstrip_def dropWhile_eq_Nil_conv)

lemma rstrip_Cons:
  "rstrip (c # cs) = (if is_space c \<and> rstrip cs = [] then [] else c # rstrip cs)"
  by (auto simp: rstrip_def dropWhile_append dropWhile_eq_Nil_conv)

lemma strip_rstrip: "strip s = rstrip (dropWhile is_space s)"
  by (simp add: strip_def rstrip_def)

lemma and_at_True [simp]: "\<not> and_at True c cs"
  by (simp add: and_at_def)

lemma sub_AND_idem_aux: "and_at p c (sub_AND True cs) \<Longrightarrow> and_at p c cs"
proof -
  assume a: "and_at p c (sub_AND True cs)"
  then obtain r where r: "\<not> p" "c = CHR ''A''" "sub_AND True cs = CHR ''N'' # CHR ''D'' # r"
    "r = [] \<or> \<not> is_word (hd r)"
    by (auto simp: and_at_shape)
  from r(3) obtain t where t: "cs = CHR ''N'' # t" "sub_AND True t = CHR ''D'' # r"
    by (cases cs) auto
  from t(2) obtain u where u: "t = CHR ''D'' # u" "sub_AND True u = r"
    by (cases t) auto
  have "u = [] \<or> \<not> is_word (hd u)"
    using u(2) r(4) by (cases u) auto
  with r t u show ?thesis by (simp add: and_at_shape)
qed

lemma sub_AND_idem: "sub_AND p (sub_AND p s) = sub_AND p s"
proof (induction p s rule: sub_AND.induct)
  case (1 prev) then show ?case by simp
next
  case (2 prev c cs)
  show ?case
  proof (cases "and_at prev c cs")
    case True
    let ?r = "drop 2 cs"
    from True have p: "\<not> prev" and b: "?r = [] \<or> \<not> is_word (hd ?r)"
      by (auto simp: and_at_def)
    have "sub_AND True ?r = [] \<or> \<not> is_word (hd (sub_AND True ?r))"
      using b by (cases ?r) auto
    then have "sub_AND prev (sub_AND True ?r) = sub_AND True (sub_AND True ?r)"
      using sub_AND_nonword_start [of "sub_AND True ?r"] by metis
    with True 2 show ?thesis by simp
  next
    case False
    have n: "\<not> and_at prev c (sub_AND (is_word c) cs)"
    proof
      assume a: "and_at prev c (sub_AND (is_word c) cs)"
      then have "c = CHR ''A''" by (simp add: and_at_def)
      with a have "and_at prev c (sub_AND True cs)" by simp
      with False show False using sub_AND_idem_aux by blast
    qed
    with False 2 show ?thesis by simp
  qed
qed

lemma sub_spaces_eq_Nil [simp]: "sub_spaces s = [] \<longleftrightarrow> s = []"
  by (cases s) auto

lemma hd_sub_spaces_word: "s \<noteq> [] \<Longrightarrow> is_word (hd (sub_spaces s)) = is_word (hd s)"
  by (cases s) (auto simp: space_not_word)

lemma and_at_sub_spaces: "and_at p c (sub_spaces cs) \<Longrightarrow> and_at p c cs"
proof -
  assume "and_at p c (sub_spaces cs)"
  then obtain r where r: "\<not> p" "c = CHR ''A''" "sub_spaces cs = CHR ''N'' # CHR ''D'' # r"
    "r = [] \<or> \<not> is_word (hd r)"
    by (auto simp: and_at_shape)
  from r(3) obtain t where t: "cs = CHR ''N'' # t" "sub_spaces t = CHR ''D'' # r"
    by (cases cs) (auto split: if_splits)
  from t(2) obtain u where u: "t = CHR ''D'' # u" "sub_spaces u = r"
    by (cases t) (auto split: if_splits)
  have "u = [] \<or> \<not> is_word (hd u)"
    using u(2) r(4) hd_sub_spaces_word [of u] by auto
  with r t u show ?thesis by (simp add: and_at_shape)
qed

lemma and_at_rstrip: "and_at p c (rstrip cs) \<Longrightarrow> and_at p c cs"
proof -
  assume "and_at p c (rstrip cs)"
  then obtain r where r: "\<not> p" "c = CHR ''A''" "rstrip cs = CHR ''N'' # CHR ''D'' # r"
    "r = [] \<or> \<not> is_word (hd r)"
    by (auto simp: and_at_shape)
  from r(3) obtain t where t: "cs = CHR ''N'' # t" "rstrip t = CHR ''D'' # r"
    by (cases cs) (auto simp: rstrip_Cons split: if_splits)
  from t(2) obtain u where u: "t = CHR ''D'' # u" "rstrip u = r"
    by (cases t) (auto simp: rstrip_Cons split: if_splits)
  have "u = [] \<or> \<not> is_word (hd u)"
    using u(2) r(4) by (cases u) (auto simp: rstrip_Cons space_not_word split: if_splits)
  with r t u show ?thesis by (simp add: and_at_shape)
qed

lemma fixed_dropWhile:
  "sub_AND False s = s \<Longrightarrow> sub_AND False (dropWhile is_space s) = dropWhile is_space s"
proof (induction s)
  case Nil then show ?case by simp
next
  case (Cons c cs)
  show ?case
  proof (cases "is_space c")
    case True
    from Cons.prems have "sub_AND (is_word c) cs = cs"
      using sub_AND_fixed_iff by blast
    with True Cons.IH show ?thesis by (simp add: space_not_word)
  next
    case False
    with Cons.prems show ?thesis by (simp del: sub_AND.simps)
  qed
qed

lemma fixed_sub_spaces:
  "sub_AND p s = s \<Longrightarrow> sub_AND p (sub_spaces s) = sub_spaces s"
proof (induction s arbitrary: p rule: sub_spaces.induct)
  case 1 then show ?case by simp
next
  case (2 c cs)
  from 2(3) have na: "\<not> and_at p c cs" and f: "sub_AND (is_word c) cs = cs"
    using sub_AND_fixed_iff by blast+
  show ?case
  proof (cases "is_space c")
    case True
    with f have "sub_AND False cs = cs" by (simp add: space_not_word)
    then have "sub_AND False (dropWhile is_space cs) = dropWhile is_space cs"
      by (rule fixed_dropWhile)
    with True 2(1) have "sub_AND False (sub_spaces (dropWhile is_space cs)) = sub_spaces (dropWhile is_space cs)"
      by simp
    with True show ?thesis by (simp add: and_at_def)
  next
    case False
    with 2(2) f have "sub_AND (is_word c) (sub_spaces cs) = sub_spaces cs" by simp
    moreover have "\<not> and_at p c (sub_spaces cs)" using na and_at_sub_spaces by blast
    ultimately show ?thesis using False by simp
  qed
qed

lemma fixed_rstrip:
  "sub_AND p s = s \<Longrightarrow> sub_AND p (rstrip s) = rstrip s"
proof (induction s arbitrary: p)
  case Nil then show ?case by simp
next
  case (Cons c cs)
  from Cons.prems have na: "\<not> and_at p c cs" and f: "sub_AND (is_word c) cs = cs"
    using sub_AND_fixed_iff by blast+
  have "sub_AND (is_word c) (rstrip cs) = rstrip cs" using Cons.IH f by simp
  moreover have "\<not> and_at p c (rstrip cs)" using na and_at_rstrip by blast
  ultimately show ?case by (simp add: rstrip_Cons)
qed

lemma fixed_strip:
  "sub_AND False s = s \<Longrightarrow> sub_AND False (strip s) = strip s"
  by (simp add: strip_rstrip fixed_rstrip fixed_dropWhile)

lemma dropWhile_sub_spaces:
  "dropWhile is_space (sub_spaces s) = sub_spaces (dropWhile is_space s)"
proof (cases s)
  case Nil then show ?thesis by simp
next
  case (Cons c cs)
  have d: "\<And>t. t = [] \<or> \<not> is_space (hd t) \<Longrightarrow> dropWhile is_space (sub_spaces t) = sub_spaces t"
    subgoal for t by (cases t) auto
    done
  have "dropWhile is_space cs = [] \<or> \<not> is_space (hd (dropWhile is_space cs))"
    using hd_dropWhile [of is_space cs] by blast
  with Cons d show ?thesis by auto
qed

lemma sub_spaces_idem: "sub_spaces (sub_spaces s) = sub_spaces s"
proof (induction s rule: sub_spaces.induct)
  case 1 then show ?case by simp
next
  case (2 c cs)
  then show ?case by (simp add: dropWhile_sub_spaces)
qed

lemma spaces_fixed_dropWhile:
  "sub_spaces s = s \<Longrightarrow> sub_spaces (dropWhile is_space s) = dropWhile is_space s"
  using dropWhile_sub_spaces [of s] by simp

lemma dropWhile_rstrip:
  "s = [] \<or> \<not> is_space (hd s) \<Longrightarrow> dropWhile is_space (rstrip s) = rstrip s"
  by (cases s) (auto simp: rstrip_Cons split: if_splits)

lemma spaces_fixed_rstrip:
  "sub_spaces s = s \<Longrightarrow> sub_spaces (rstrip s) = rstrip s"
proof (induction s rule: sub_spaces.induct)
  case 1 then show ?case by simp
next
  case (2 c cs)
  show ?case
  proof (cases "is_space c")
    case True
    with 2(3) have c: "c = CHR '' ''" and e: "sub_spaces (dropWhile is_space cs) = cs" by simp_all
    have d: "dropWhile is_space cs = cs"
      using e dropWhile_sub_spaces [of "dropWhile is_space cs"] by simp
    with e True 2(1) have ih: "sub_spaces (rstrip cs) = rstrip cs" by simp
    have "cs = [] \<or> \<not> is_space (hd cs)"
      using d hd_dropWhile [of is_space cs] by auto
    then have "dropWhile is_space (rstrip cs) = rstrip cs"
      by (rule dropWhile_rstrip)
    with ih True c show ?thesis by (simp add: rstrip_Cons)
  next
    case False
    with 2 show ?thesis by (simp add: rstrip_Cons)
  qed
qed

lemma rstrip_idem: "rstrip (rstrip s) = rstrip s"
  by (induction s) (auto simp: rstrip_Cons)

lemma strip_idem: "strip (strip s) = strip s"
proof -
  have "dropWhile is_space s = [] \<or> \<not> is_space (hd (dropWhile is_space s))"
    using hd_dropWhile [of is_space s] by blast
  then show ?thesis by (simp add: strip_rstrip dropWhile_rstrip rstrip_idem)
qed

lemma spaces_fixed_strip: "sub_spaces s = s \<Longrightarrow> sub_spaces (strip s) = strip s"
  by (simp add: strip_rstrip spaces_fixed_rstrip spaces_fixed_dropWhile)

lemma set_sub_AND: "set (sub_AND p s) \<subseteq> set s"
proof (induction p s rule: sub_AND.induct)
  case (1 prev) then show ?case by simp
next
  case (2 prev c cs)
  then show ?case using set_drop_subset [of 2 cs] by auto
qed

lemma set_sub_spaces: "set (sub_spaces s) \<subseteq> insert (CHR '' '') (set s)"
proof (induction s rule: sub_spaces.induct)
  case 1 then show ?case by simp
next
  case (2 c cs)
  then show ?case using set_dropWhileD [of _ is_space cs] by auto
qed

lemma set_strip: "set (strip s) \<subseteq> set s"
proof -
  have "set (strip s) \<subseteq> set (dropWhile is_space s)"
    unfolding strip_def using set_dropWhileD [of _ is_space "rev (dropWhile is_space s)"] by auto
  then show ?thesis using set_dropWhileD [of _ is_space s] by blast
qed

lemma set_sub_parens: "set (sub_parens s) = set s - {CHR ''('', CHR '')''}"
  by (auto simp: sub_parens_def)

lemma sanitize_no_parens:
  "CHR ''('' \<notin> set (sanitize_query q) \<and> CHR '')'' \<notin> set (sanitize_query q)"
proof -
  have "set (sanitize_query q) \<subseteq> insert (CHR '' '') (set (sub_parens (sub_AND False q)))"
    unfolding sanitize_query_def using set_strip set_sub_spaces by blast
  then show ?thesis by (auto simp: set_sub_parens)
qed

lemma sub_parens_fixed: "CHR ''('' \<notin> set s \<Longrightarrow> CHR '')'' \<notin> set s \<Longrightarrow> sub_parens s = s"
  by (auto simp: sub_parens_def filter_id_conv)

lemma sanitize_fixed:
  assumes "sub_AND False (sub_parens (sub_AND False q)) = sub_parens (sub_AND False q)"
  shows "sub_AND False (sanitize_query q) = sanitize_query q"
    and "sanitize_query (sanitize_query q) = sanitize_query q"
proof -
  let ?t = "sanitize_query q"
  have sp: "sub_spaces ?t = ?t"
    by (simp add: sanitize_query_def spaces_fixed_strip sub_spaces_idem)
  have st: "strip ?t = ?t" by (simp add: sanitize_query_def strip_idem)
  have pa: "sub_parens ?t = ?t" using sanitize_no_parens by (simp add: sub_parens_fixed)
  show an: "sub_AND False ?t = ?t"
    unfolding sanitize_query_def using assms by (intro fixed_strip fixed_sub_spaces)
  show "sanitize_query ?t = ?t"
    using an sp st pa by (simp add: sanitize_query_def [of ?t])
qed

lemma no_parens_cond:
  assumes "CHR ''('' \<notin> set q" "CHR '')'' \<notin> set q"
  shows "sub_AND False (sub_parens (sub_AND False q)) = sub_parens (sub_AND False q)"
proof -
  have "sub_parens (sub_AND False q) = sub_AND False q"
    using assms set_sub_AND [of False q] by (intro sub_parens_fixed) auto
  then show ?thesis by (simp add: sub_AND_idem)
qed

text \<open>
  Claim C2: the sanitizer is idempotent and removes all \<^verbatim>\<open>AND\<close> tokens and all
  parentheses. The code does not do this. \<^verbatim>\<open>_sanitize_query\<close> removes the
  \<^verbatim>\<open>AND\<close> tokens first and the parentheses second, so deleting a parenthesis can put
  an \<^verbatim>\<open>A\<close>, an \<^verbatim>\<open>N\<close> and a \<^verbatim>\<open>D\<close> next to each other after the pass that would
  have removed them has run. On the input \<^verbatim>\<open>A(ND\<close> the sanitizer returns
  \<^verbatim>\<open>AND\<close>, a standalone \<^verbatim>\<open>AND\<close> token it was to remove, and on that output it
  returns the empty string: sanitizing twice differs from sanitizing once.
\<close>

theorem sanitize_query_not_idempotent:
  "sanitize_query ''A(ND'' = ''AND'' \<and> sanitize_query (sanitize_query ''A(ND'') = '''' \<and>
   sanitize_query (sanitize_query ''A(ND'') \<noteq> sanitize_query ''A(ND'' \<and>
   sub_AND False (sanitize_query ''A(ND'') \<noteq> sanitize_query ''A(ND''"
  by (simp add: sanitize_query_def strip_def sub_parens_def and_at_def is_space_def is_word_def)

text \<open>
  Where the sanitizer does behave as an idempotent function (on strings of code points
  below 256): on every query in which deleting the parentheses creates no new standalone
  \<^verbatim>\<open>AND\<close>, in particular on every query without parentheses; there its output
  holds no standalone \<^verbatim>\<open>AND\<close>. For every query the output holds no parenthesis, has
  its whitespace collapsed and is stripped.
\<close>

lemma sanitize_query_idempotent_where:
  "(sub_AND False (sub_parens (sub_AND False q)) = sub_parens (sub_AND False q) \<longrightarrow>
      sanitize_query (sanitize_query q) = sanitize_query q \<and>
      sub_AND False (sanitize_query q) = sanitize_query q) \<and>
   (CHR ''('' \<notin> set q \<and> CHR '')'' \<notin> set q \<longrightarrow>
      sanitize_query (sanitize_query q) = sanitize_query q) \<and>
   CHR ''('' \<notin> set (sanitize_query q) \<and> CHR '')'' \<notin> set (sanitize_query q) \<and>
   sub_spaces (sanitize_query q) = sanitize_query q \<and>
   strip (sanitize_query q) = sanitize_query q \<and>
   sanitize_query ''(a) AND (b)'' = ''a b''"
proof -
  have a: "sub_AND False (sub_parens (sub_AND False q)) = sub_parens (sub_AND False q) \<longrightarrow>
      sanitize_query (sanitize_query q) = sanitize_query q \<and>
      sub_AND False (sanitize_query q) = sanitize_query q"
    using sanitize_fixed by blast
  have b: "CHR ''('' \<notin> set q \<and> CHR '')'' \<notin> set q \<longrightarrow>
      sanitize_query (sanitize_query q) = sanitize_query q"
    using no_parens_cond sanitize_fixed(2) by blast
  have c: "sub_spaces (sanitize_query q) = sanitize_query q"
    by (simp add: sanitize_query_def spaces_fixed_strip sub_spaces_idem)
  have d: "strip (sanitize_query q) = sanitize_query q"
    by (simp add: sanitize_query_def strip_idem)
  have e: "sanitize_query ''(a) AND (b)'' = ''a b''"
    by (simp add: sanitize_query_def strip_def sub_parens_def and_at_def is_space_def is_word_def)
  from a b c d e sanitize_no_parens [of q] show ?thesis by blast
qed

lemma sanitize_query_idempotent_example:
  "sub_AND False (sub_parens (sub_AND False ''(a) AND (b)'')) = sub_parens (sub_AND False ''(a) AND (b)'') \<and>
   sanitize_query (sanitize_query ''(a) AND (b)'') = ''a b'' \<and>
   CHR ''('' \<notin> set ''x AND y'' \<and>
   sanitize_query (sanitize_query ''x AND y'') = sanitize_query ''x AND y''"
proof -
  have h: "sub_AND False (sub_parens (sub_AND False ''(a) AND (b)'')) = sub_parens (sub_AND False ''(a) AND (b)'')"
    by (simp add: sub_parens_def and_at_def is_word_def)
  have p: "CHR ''('' \<notin> set ''x AND y'' \<and> CHR '')'' \<notin> set ''x AND y''" by simp
  from h p show ?thesis
    using sanitize_query_idempotent_where [of "''(a) AND (b)''"]
      sanitize_query_idempotent_where [of "''x AND y''"]
    by simp
qed

section \<open>Properties of the fan-out engine\<close>

subsection \<open>Deduplication\<close>

lemma dedup_ids: "post_id ` set (dedup_by_id S xs) = post_id ` set xs - S"
  by (induction xs arbitrary: S) auto

lemma dedup_append:
  "dedup_by_id S (xs @ ys) = dedup_by_id S xs @ dedup_by_id (S \<union> post_id ` set xs) ys"
  by (induction xs arbitrary: S) (auto simp: insert_absorb)

lemma dedup_distinct: "distinct (map post_id (dedup_by_id S xs))"
proof (induction xs arbitrary: S)
  case Nil then show ?case by simp
next
  case (Cons a xs)
  have "post_id a \<notin> post_id ` set (dedup_by_id (insert (post_id a) S) xs)"
    by (simp add: dedup_ids)
  with Cons show ?case by simp
qed

lemma dedup_subseq: "subseq (dedup_by_id S xs) xs"
  by (induction xs arbitrary: S) auto

lemma dedup_first:
  "p \<in> set (dedup_by_id S xs) \<Longrightarrow> find (\<lambda>x. post_id x = post_id p) xs = Some p"
proof (induction xs arbitrary: S)
  case Nil then show ?case by simp
next
  case (Cons a xs)
  show ?case
  proof (cases "post_id a \<in> S")
    case True
    with Cons.prems have m: "p \<in> set (dedup_by_id S xs)" by simp
    then have "post_id p \<in> post_id ` set xs - S" using dedup_ids [of S xs] by blast
    with True have "post_id a \<noteq> post_id p" by auto
    with Cons.IH [OF m] show ?thesis by simp
  next
    case False
    show ?thesis
    proof (cases "p = a")
      case True then show ?thesis by simp
    next
      case ne: False
      with False Cons.prems have m: "p \<in> set (dedup_by_id (insert (post_id a) S) xs)" by simp
      then have "post_id p \<in> post_id ` set xs - insert (post_id a) S"
        using dedup_ids [of "insert (post_id a) S" xs] by blast
      then have "post_id a \<noteq> post_id p" by auto
      with Cons.IH [OF m] show ?thesis by simp
    qed
  qed
qed

lemma distinct_py_slice_to: "distinct (map f xs) \<Longrightarrow> distinct (map f (py_slice_to xs n))"
  by (simp add: py_slice_to_def take_map [symmetric] del: take_map)

lemma length_py_slice_to: "0 \<le> n \<Longrightarrow> length (py_slice_to xs n) \<le> nat n"
  by (simp add: py_slice_to_def)

subsection \<open>What each step changes\<close>

lemma collect_Cons_snd:
  "snd (collect (p # ps) st) =
     (if post_id p \<notin> seen_ids st
      then snd (collect ps (st\<lparr>seen_ids := insert (post_id p) (seen_ids st),
                                all_posts := all_posts st @ [p]\<rparr>))
      else snd (collect ps st))"
  by (simp split: prod.splits)

lemma collect_Cons_fst:
  "fst (collect (p # ps) st) =
     (if post_id p \<notin> seen_ids st
      then fst (collect ps (st\<lparr>seen_ids := insert (post_id p) (seen_ids st),
                                all_posts := all_posts st @ [p]\<rparr>)) + 1
      else fst (collect ps st))"
  by (simp split: prod.splits)

lemma collect_frame:
  "yielding_subs (snd (collect ps st)) = yielding_subs st"
  "queries_executed (snd (collect ps st)) = queries_executed st"
  "quote_retries (snd (collect ps st)) = quote_retries st"
  "meta (snd (collect ps st)) = meta st"
  "hist (snd (collect ps st)) = hist st"
  by (induction ps arbitrary: st)
     (simp_all add: collect_Cons_snd collect_Cons_fst del: collect.simps(2))

lemma collect_all_posts:
  "all_posts (snd (collect ps st)) = all_posts st @ dedup_by_id (seen_ids st) ps"
  by (induction ps arbitrary: st)
     (simp_all add: collect_Cons_snd collect_Cons_fst del: collect.simps(2))

lemma collect_seen: "seen_ids (snd (collect ps st)) = seen_ids st \<union> post_id ` set ps"
  by (induction ps arbitrary: st)
     (auto simp add: collect_Cons_snd simp del: collect.simps(2))


lemma run_query_frame:
  "all_posts (snd (run_query e srt sub q l st)) = all_posts st"
  "seen_ids (snd (run_query e srt sub q l st)) = seen_ids st"
  "yielding_subs (snd (run_query e srt sub q l st)) = yielding_subs st"
  "meta (snd (run_query e srt sub q l st)) = meta st"
  by (simp_all add: run_query_def Let_def)

lemma quote_fallback_frame:
  "all_posts (snd (quote_fallback e srt sub q l (ps, st))) = all_posts st"
  "seen_ids (snd (quote_fallback e srt sub q l (ps, st))) = seen_ids st"
  "yielding_subs (snd (quote_fallback e srt sub q l (ps, st))) = yielding_subs st"
  "meta (snd (quote_fallback e srt sub q l (ps, st))) = meta st"
  by (simp_all add: quote_fallback_def Let_def run_query_frame split: prod.splits)
     (metis run_query_frame snd_conv)+

lemma query_with_fallback_frame:
  "all_posts (snd (query_with_fallback e srt sub q l st)) = all_posts st"
  "seen_ids (snd (query_with_fallback e srt sub q l st)) = seen_ids st"
  "yielding_subs (snd (query_with_fallback e srt sub q l st)) = yielding_subs st"
  "meta (snd (query_with_fallback e srt sub q l st)) = meta st"
  unfolding query_with_fallback_def
  by (metis prod.collapse quote_fallback_frame run_query_frame)+

subsection \<open>The deduplication invariant\<close>

lemma pending_init: "pending e h [] (init_state m h)"
  by (simp add: pending_def init_state_def)

lemma pending_run_query:
  assumes "pending e h0 [] st"
  shows "pending e h0 (fst (run_query e srt sub q l st)) (snd (run_query e srt sub q l st))"
proof (cases "sanitize_query q = []")
  case True
  with assms show ?thesis by (simp add: run_query_def)
next
  case False
  from assms obtain new where n: "hist st = new @ h0"
    "dedup_by_id {} (responses e h0 new) = all_posts st"
    and s: "seen_ids st = post_id ` set (all_posts st)"
    by (auto simp: pending_def)
  let ?ev = "Search (sanitize_query q) srt sub l"
  let ?ps = "search_posts e (hist st) (sanitize_query q) srt sub l"
  have "post_id ` set (responses e h0 new) = seen_ids st"
    using dedup_ids [of "{}" "responses e h0 new"] n(2) s by simp
  then have "dedup_by_id {} (responses e h0 (?ev # new)) =
      all_posts st @ dedup_by_id (seen_ids st) ?ps"
    using n by (simp add: dedup_append)
  moreover have "?ev # hist st = (?ev # new) @ h0" using n(1) by simp
  ultimately have "\<exists>new'. ?ev # hist st = new' @ h0 \<and>
      dedup_by_id {} (responses e h0 new') = all_posts st @ dedup_by_id (seen_ids st) ?ps"
    by blast
  with False s show ?thesis by (simp add: run_query_def pending_def Let_def)
qed

lemma pending_quote_retries [simp]:
  "pending e h0 ps (st\<lparr>quote_retries := n\<rparr>) = pending e h0 ps st"
  by (simp add: pending_def)

lemma pending_meta [simp]: "pending e h0 ps (st\<lparr>meta := m\<rparr>) = pending e h0 ps st"
  by (simp add: pending_def)

lemma pending_yielding [simp]:
  "pending e h0 ps (st\<lparr>yielding_subs := ys\<rparr>) = pending e h0 ps st"
  by (simp add: pending_def)

lemma pending_quote_fallback:
  assumes "pending e h0 ps st"
  shows "pending e h0 (fst (quote_fallback e srt sub q l (ps, st)))
           (snd (quote_fallback e srt sub q l (ps, st)))"
proof (cases "ps = [] \<and> CHR 0x22 \<in> set q")
  case True
  with assms have "pending e h0 [] st" by simp
  from pending_run_query [OF this] True show ?thesis
    by (simp add: quote_fallback_def Let_def case_prod_beta)
next
  case False
  with assms show ?thesis by (auto simp: quote_fallback_def)
qed

lemma pending_query_with_fallback:
  assumes "pending e h0 [] st"
  shows "pending e h0 (fst (query_with_fallback e srt sub q l st))
           (snd (query_with_fallback e srt sub q l st))"
  unfolding query_with_fallback_def
  using pending_quote_fallback [OF pending_run_query [OF assms],
      of srt sub q l srt "Some sub" q l]
  by simp

lemma pending_collect:
  assumes "pending e h0 ps st"
  shows "pending e h0 [] (snd (collect ps st))"
proof -
  from assms obtain new where n: "hist st = new @ h0"
    "dedup_by_id {} (responses e h0 new) = all_posts st @ dedup_by_id (seen_ids st) ps"
    and s: "seen_ids st = post_id ` set (all_posts st)"
    by (auto simp: pending_def)
  let ?st = "snd (collect ps st)"
  have a: "all_posts ?st = all_posts st @ dedup_by_id (seen_ids st) ps"
    by (rule collect_all_posts)
  have "seen_ids ?st = seen_ids st \<union> post_id ` set ps" by (rule collect_seen)
  also have "\<dots> = post_id ` set (all_posts ?st)"
    unfolding a using s dedup_ids [of "seen_ids st" ps] by auto
  finally have b: "seen_ids ?st = post_id ` set (all_posts ?st)" .
  have "hist ?st = new @ h0 \<and> dedup_by_id {} (responses e h0 new) = all_posts ?st"
    using n a by (simp add: collect_frame)
  then have "\<exists>new'. hist ?st = new' @ h0 \<and>
      dedup_by_id {} (responses e h0 new') = all_posts ?st" by blast
  with b show ?thesis by (simp add: pending_def)
qed

lemma pending_sleep: "pending e h0 [] st \<Longrightarrow> pending e h0 [] (sleep st)"
proof -
  assume "pending e h0 [] st"
  then obtain new where n: "hist st = new @ h0"
    "dedup_by_id {} (responses e h0 new) = all_posts st"
    and s: "seen_ids st = post_id ` set (all_posts st)"
    by (auto simp: pending_def)
  have "Sleep # hist st = (Sleep # new) @ h0 \<and>
      dedup_by_id {} (responses e h0 (Sleep # new)) = all_posts st"
    using n by simp
  then have "\<exists>new'. Sleep # hist st = new' @ h0 \<and>
      dedup_by_id {} (responses e h0 new') = all_posts st" by blast
  with s show ?thesis by (simp add: pending_def sleep_def)
qed

lemma pending_timed_out:
  "pending e h0 [] st \<Longrightarrow> pending e h0 [] (snd (timed_out e d st))"
proof -
  assume "pending e h0 [] st"
  then obtain new where n: "hist st = new @ h0"
    "dedup_by_id {} (responses e h0 new) = all_posts st"
    and s: "seen_ids st = post_id ` set (all_posts st)"
    by (auto simp: pending_def)
  have "Clock # hist st = (Clock # new) @ h0 \<and>
      dedup_by_id {} (responses e h0 (Clock # new)) = all_posts st"
    using n by simp
  then have "\<exists>new'. Clock # hist st = new' @ h0 \<and>
      dedup_by_id {} (responses e h0 new') = all_posts st" by blast
  with s show ?thesis by (simp add: pending_def timed_out_def)
qed

lemma pending_phase1_step:
  "pending e h0 [] st \<Longrightarrow> pending e h0 [] (phase1_step e plan srt l sub st)"
  by (simp add: phase1_step_def Let_def case_prod_beta pending_sleep pending_collect
      pending_query_with_fallback)

lemma pending_phase1:
  "pending e h0 [] st \<Longrightarrow> pending e h0 [] (phase1 e plan srt l d subs st)"
proof (induction subs arbitrary: st)
  case Nil then show ?case by simp
next
  case (Cons sub subs)
  from Cons.prems have t: "pending e h0 [] (snd (timed_out e d st))"
    by (rule pending_timed_out)
  show ?case
  proof (cases "fst (timed_out e d st)")
    case True
    with t show ?thesis by (simp add: case_prod_beta)
  next
    case False
    with Cons.IH [OF pending_phase1_step [OF t]] show ?thesis by (simp add: case_prod_beta)
  qed
qed

lemma pending_phase2_queries:
  "pending e h0 [] st \<Longrightarrow> pending e h0 [] (phase2_queries e srt l cap d sub qs st)"
proof (induction qs arbitrary: st)
  case Nil then show ?case by simp
next
  case (Cons q qs)
  from Cons.prems have t: "pending e h0 [] (snd (timed_out e d st))"
    by (rule pending_timed_out)
  have "pending e h0 []
      (sleep (snd (collect (fst (query_with_fallback e srt sub q l (snd (timed_out e d st))))
                     (snd (query_with_fallback e srt sub q l (snd (timed_out e d st)))))))"
    by (intro pending_sleep pending_collect pending_query_with_fallback t)
  from Cons.IH [OF this] t Cons.prems show ?case by (simp add: case_prod_beta)
qed

lemma pending_phase2_subs:
  "pending e h0 [] st \<Longrightarrow> pending e h0 [] (phase2_subs e plan srt l cap d subs st)"
proof (induction subs arbitrary: st)
  case Nil then show ?case by simp
next
  case (Cons sub subs)
  from Cons.prems have t: "pending e h0 [] (snd (timed_out e d st))"
    by (rule pending_timed_out)
  from Cons.IH [OF pending_phase2_queries [OF t]] t Cons.prems
  show ?case by (simp add: case_prod_beta)
qed

lemma pending_global_loop:
  "pending e h0 [] st \<Longrightarrow> pending e h0 [] (global_loop e srt cap d gqs st)"
proof (induction gqs arbitrary: st)
  case Nil then show ?case by simp
next
  case (Cons gq gqs)
  let ?st1 = "snd (timed_out e d st)"
  let ?r = "run_query e srt None gq (cap - int (length (all_posts ?st1))) ?st1"
  from Cons.prems have t: "pending e h0 [] ?st1" by (rule pending_timed_out)
  have "pending e h0 [] (sleep (snd (collect (fst ?r) (snd ?r))))"
    by (intro pending_sleep pending_collect pending_run_query t)
  from Cons.IH [OF this] t Cons.prems show ?case by (simp add: case_prod_beta)
qed

lemma pending_after_phase2:
  "pending e h0 [] st \<Longrightarrow> pending e h0 [] (after_phase2 e plan srt l cap d st)"
  by (simp add: after_phase2_def after_phase1_def phase2_def Let_def
      pending_phase1 pending_phase2_subs)

lemma pending_global_fallback:
  "pending e h0 [] st \<Longrightarrow> pending e h0 [] (global_fallback e plan srt cap d st)"
proof -
  assume p: "pending e h0 [] st"
  then have t: "pending e h0 []
      ((snd (timed_out e d st))\<lparr>meta := (meta (snd (timed_out e d st)))
          \<lparr>global_fallback_triggered := True\<rparr>\<rparr>)"
    by (simp add: pending_timed_out)
  from pending_global_loop [OF t] p pending_timed_out [OF p]
  show ?thesis by (simp add: global_fallback_def Let_def case_prod_beta)
qed

text \<open>
  Claim C1: the list returned by the fan-out engine is the deduplication, in
  first-seen order, of everything its searches returned (Phase 1, Phase 2 and the global
  fallback alike), cut by \<^verbatim>\<open>[:result_cap]\<close>. Each identifier occurs at most once;
  before the cut, the kept items are exactly the first occurrences of their identifiers,
  every identifier that was returned is kept, and the order is that of the responses.
  For a cap that is not negative the list has at most \<open>result_cap\<close> items.
\<close>

theorem fan_out_search_dedup:
  assumes "fan_out_search e plan post_limit srt m deadline h0 = Inr (res, m', h')"
  shows "\<exists>new kept. h' = new @ h0 \<and>
           kept = dedup_by_id {} (responses e h0 new) \<and>
           res = py_slice_to kept post_limit \<and>
           distinct (map post_id kept) \<and>
           post_id ` set kept = post_id ` set (responses e h0 new) \<and>
           subseq kept (responses e h0 new) \<and>
           (\<forall>p \<in> set kept. find (\<lambda>x. post_id x = post_id p) (responses e h0 new) = Some p) \<and>
           distinct (map post_id res) \<and>
           (0 \<le> post_limit \<longrightarrow> length res \<le> nat post_limit)"
proof -
  from assms obtain l where l: "per_query_limit plan post_limit = Inr l"
    by (auto simp: fan_out_search_def split: sum.splits)
  let ?st = "global_fallback e plan srt post_limit deadline
               (after_phase2 e plan srt l post_limit deadline (init_state m h0))"
  from assms l have r: "res = py_slice_to (all_posts ?st) post_limit" "h' = hist ?st"
    by (simp_all add: fan_out_search_def Let_def)
  have "pending e h0 [] ?st"
    by (intro pending_global_fallback pending_after_phase2 pending_init)
  then obtain new where n: "hist ?st = new @ h0"
    "dedup_by_id {} (responses e h0 new) = all_posts ?st"
    by (auto simp: pending_def)
  let ?kept = "dedup_by_id {} (responses e h0 new)"
  have d: "distinct (map post_id ?kept)" by (rule dedup_distinct)
  have "h' = new @ h0" using r n by simp
  moreover have "res = py_slice_to ?kept post_limit" using r n by simp
  moreover have "post_id ` set ?kept = post_id ` set (responses e h0 new)"
    by (simp add: dedup_ids)
  moreover have "subseq ?kept (responses e h0 new)" by (rule dedup_subseq)
  moreover have "\<forall>p \<in> set ?kept. find (\<lambda>x. post_id x = post_id p) (responses e h0 new) = Some p"
    using dedup_first by blast
  moreover have "distinct (map post_id res)"
    using d r n distinct_py_slice_to [of post_id ?kept post_limit] by simp
  moreover have "0 \<le> post_limit \<longrightarrow> length res \<le> nat post_limit"
    using r length_py_slice_to [of post_limit "all_posts ?st"] by simp
  ultimately show ?thesis using d by blast
qed

theorem fan_out_search_dedup_witness:
  "fan_out_search env_ex plan_ex 2 ''relevance'' meta0 100 [] =
     Inr ([mk_post ''1'', mk_post ''2''],
          meta0\<lparr>subreddits_searched := 3, subreddits_yielded := 2,
            total_queries_executed := 3, posts_before_dedup := 3, posts_after_dedup := 3,
            global_fallback_triggered := True\<rparr>,
          [Clock, Sleep,
           Search [CHR 0x22, CHR ''w'', CHR 0x22] ''relevance'' (Some ''c'') 2,
           Clock, Sleep, Search ''u'' ''relevance'' (Some ''b'') 2, Clock,
           Sleep, Search ''x'' ''relevance'' (Some ''a'') 2, Clock]) \<and>
   distinct (map post_id [mk_post ''1'', mk_post ''2'']) \<and>
   length [mk_post ''1'', mk_post ''2''] \<le> nat 2 \<and>
   (\<exists>new. [mk_post ''1'', mk_post ''2''] =
      py_slice_to (dedup_by_id {} (responses env_ex [] new)) 2)"
proof -
  let ?res = "[mk_post ''1'', mk_post ''2'']"
  let ?m = "meta0\<lparr>subreddits_searched := 3, subreddits_yielded := 2,
      total_queries_executed := 3, posts_before_dedup := 3, posts_after_dedup := 3,
      global_fallback_triggered := True\<rparr>"
  let ?h = "[Clock, Sleep,
       Search [CHR 0x22, CHR ''w'', CHR 0x22] ''relevance'' (Some ''c'') 2,
       Clock, Sleep, Search ''u'' ''relevance'' (Some ''b'') 2, Clock,
       Sleep, Search ''x'' ''relevance'' (Some ''a'') 2, Clock]"
  have ev: "fan_out_search env_ex plan_ex 2 ''relevance'' meta0 100 [] = Inr (?res, ?m, ?h)"
    by code_simp
  from fan_out_search_dedup [OF ev] obtain new where
    n: "?res = py_slice_to (dedup_by_id {} (responses env_ex [] new)) 2"
    and d: "distinct (map post_id ?res)" and l: "(0::int) \<le> 2 \<longrightarrow> length ?res \<le> nat 2"
    by blast
  from l have l': "length ?res \<le> nat 2" by simp
  have x: "\<exists>new. ?res = py_slice_to (dedup_by_id {} (responses env_ex [] new)) 2"
    using n by (rule exI)
  show ?thesis by (intro conjI ev d l' x)
qed

subsection \<open>Division by zero\<close>

lemma meta_global_loop: "meta (global_loop e srt cap d gqs st) = meta st"
proof (induction gqs arbitrary: st)
  case Nil then show ?case by simp
next
  case (Cons gq gqs)
  show ?case
    by (simp add: case_prod_beta Cons.IH sleep_def collect_frame run_query_frame timed_out_def)
qed

lemma per_query_limit_Inr: "\<exists>l. per_query_limit plan post_limit = Inr l"
proof -
  have "max (int (length (subreddits plan))) 1 \<noteq> 0" by simp
  then show ?thesis by (simp add: per_query_limit_def py_floordiv_def Let_def del: max.absorb_iff2 max.absorb4)
qed

lemma after_phase2_no_subs:
  "subreddits plan = [] \<Longrightarrow>
   after_phase2 e plan srt l cap d (init_state m h) =
     (init_state m h)\<lparr>meta := m\<lparr>subreddits_searched := 0, subreddits_yielded := 0,
        posts_before_dedup := 0, posts_after_dedup := 0, total_queries_executed := 0\<rparr>\<rparr>"
  by (simp add: after_phase2_def after_phase1_def phase2_def init_state_def Let_def)

text \<open>
  Claim C10: the budget computation never fails with a division by zero, whatever the
  plan, so the engine always returns; for a plan without communities the divisor is
  \<^verbatim>\<open>max(0, 1) = 1\<close>, both phases do nothing, and the engine reaches the
  global-fallback check with zero results, which are below the threshold: the fallback
  is entered exactly when the deadline has not passed.
\<close>

theorem fan_out_search_no_zero_division:
  "per_query_limit plan post_limit \<noteq> Inl ZeroDivisionError \<and>
   (\<exists>res m' h'. fan_out_search e plan post_limit srt m deadline h = Inr (res, m', h')) \<and>
   (subreddits plan = [] \<longrightarrow>
      per_query_limit plan post_limit = Inr (max 2 (min 5 post_limit)) \<and>
      (\<exists>res m' h'. fan_out_search e plan post_limit srt m deadline h = Inr (res, m', h') \<and>
         (global_fallback_triggered m' \<longleftrightarrow>
            global_fallback_triggered m \<or> \<not> monotonic e h > deadline)))"
proof -
  obtain l where l: "per_query_limit plan post_limit = Inr l"
    using per_query_limit_Inr by blast
  have a: "per_query_limit plan post_limit \<noteq> Inl ZeroDivisionError" using l by simp
  let ?st = "global_fallback e plan srt post_limit deadline
               (after_phase2 e plan srt l post_limit deadline (init_state m h))"
  have f: "fan_out_search e plan post_limit srt m deadline h =
      Inr (py_slice_to (all_posts ?st) post_limit, meta ?st, hist ?st)"
    using l by (simp add: fan_out_search_def Let_def)
  then have b: "\<exists>res m' h'. fan_out_search e plan post_limit srt m deadline h = Inr (res, m', h')"
    by blast
  have c: "subreddits plan = [] \<longrightarrow>
      per_query_limit plan post_limit = Inr (max 2 (min 5 post_limit)) \<and>
      (\<exists>res m' h'. fan_out_search e plan post_limit srt m deadline h = Inr (res, m', h') \<and>
         (global_fallback_triggered m' \<longleftrightarrow>
            global_fallback_triggered m \<or> \<not> monotonic e h > deadline))"
  proof
    assume e: "subreddits plan = []"
    then have p: "per_query_limit plan post_limit = Inr (max 2 (min 5 post_limit))"
      by (simp add: per_query_limit_def py_floordiv_def Let_def)
    have "(0::int) < max 5 (post_limit div 4)" by simp
    then have "global_fallback_triggered (meta ?st) \<longleftrightarrow>
        global_fallback_triggered m \<or> \<not> monotonic e h > deadline"
      unfolding after_phase2_no_subs [OF e]
      by (simp add: global_fallback_def Let_def case_prod_beta
          meta_global_loop timed_out_def init_state_def)
    with f have "\<exists>res m' h'. fan_out_search e plan post_limit srt m deadline h = Inr (res, m', h') \<and>
         (global_fallback_triggered m' \<longleftrightarrow>
            global_fallback_triggered m \<or> \<not> monotonic e h > deadline)"
      by blast
    with p show "per_query_limit plan post_limit = Inr (max 2 (min 5 post_limit)) \<and>
      (\<exists>res m' h'. fan_out_search e plan post_limit srt m deadline h = Inr (res, m', h') \<and>
         (global_fallback_triggered m' \<longleftrightarrow>
            global_fallback_triggered m \<or> \<not> monotonic e h > deadline))" by blast
  qed
  from a b c show ?thesis by blast
qed

theorem fan_out_search_no_zero_division_witness:
  "subreddits (plan_ex\<lparr>subreddits := []\<rparr>) = [] \<and>
   per_query_limit (plan_ex\<lparr>subreddits := []\<rparr>) 20 = Inr 5 \<and>
   fan_out_search env_ex (plan_ex\<lparr>subreddits := []\<rparr>) 20 ''relevance'' meta0 100 [] =
     Inr ([], meta0\<lparr>global_fallback_triggered := True\<rparr>,
          [Sleep, Search ''g2'' ''relevance'' None 20, Clock,
           Sleep, Search ''g1'' ''relevance'' None 20, Clock, Clock])"
proof -
  have s: "subreddits (plan_ex\<lparr>subreddits := []\<rparr>) = []" by simp
  have ev: "fan_out_search env_ex (plan_ex\<lparr>subreddits := []\<rparr>) 20 ''relevance'' meta0 100 [] =
     Inr ([], meta0\<lparr>global_fallback_triggered := True\<rparr>,
          [Sleep, Search ''g2'' ''relevance'' None 20, Clock,
           Sleep, Search ''g1'' ''relevance'' None 20, Clock, Clock])"
    by code_simp
  from fan_out_search_no_zero_division [of "plan_ex\<lparr>subreddits := []\<rparr>" 20] s
  have "per_query_limit (plan_ex\<lparr>subreddits := []\<rparr>) 20 = Inr (max 2 (min 5 20))" by blast
  then have "per_query_limit (plan_ex\<lparr>subreddits := []\<rparr>) 20 = Inr 5" by simp
  with s ev show ?thesis by (intro conjI)
qed

subsection \<open>Quote fallback\<close>

lemma sub_AND_keeps:
  "c \<in> set s \<Longrightarrow> c \<noteq> CHR ''A'' \<Longrightarrow> c \<noteq> CHR ''N'' \<Longrightarrow> c \<noteq> CHR ''D'' \<Longrightarrow>
   c \<in> set (sub_AND p s)"
proof (induction p s rule: sub_AND.induct)
  case (1 prev) then show ?case by simp
next
  case (2 prev x xs)
  show ?case
  proof (cases "and_at prev x xs")
    case True
    then obtain r where r: "x = CHR ''A''" "xs = CHR ''N'' # CHR ''D'' # r"
      by (auto simp: and_at_shape)
    with 2 True show ?thesis by auto
  next
    case False
    with 2 show ?thesis by auto
  qed
qed

lemma sub_spaces_keeps: "c \<in> set s \<Longrightarrow> \<not> is_space c \<Longrightarrow> c \<in> set (sub_spaces s)"
proof (induction s rule: sub_spaces.induct)
  case 1 then show ?case by simp
next
  case (2 x xs)
  have d: "c \<in> set xs \<Longrightarrow> c \<in> set (dropWhile is_space xs)"
    using 2(4) by (induction xs) auto
  from 2 d show ?case by auto
qed

lemma dropWhile_keeps: "c \<in> set s \<Longrightarrow> \<not> P c \<Longrightarrow> c \<in> set (dropWhile P s)"
  by (induction s) auto

lemma strip_keeps: "c \<in> set s \<Longrightarrow> \<not> is_space c \<Longrightarrow> c \<in> set (strip s)"
proof -
  assume a: "c \<in> set s" "\<not> is_space c"
  then have "c \<in> set (rev (dropWhile is_space s))" by (simp add: dropWhile_keeps)
  then have "c \<in> set (dropWhile is_space (rev (dropWhile is_space s)))"
    using a(2) by (rule dropWhile_keeps)
  then show ?thesis by (simp add: strip_def)
qed


lemma run_query_hist:
  "hist (snd (run_query e srt sub q l st)) =
     (if sanitize_query q = [] then []
      else [Search (sanitize_query q) srt sub l]) @ hist st"
  by (simp add: run_query_def Let_def)


subsection \<open>Continuations of a state\<close>

lemma responses_append:
  "responses e h0 (a @ b) = responses e h0 b @ responses e (b @ h0) a"
  by (induction a) (simp_all split: event.splits)

lemma continues_refl: "continues e st [] st"
  by (simp add: continues_def collected_after_def)

lemma collected_after_Nil: "collected_after e st [] = all_posts st"
  by (simp add: collected_after_def)

lemma collected_after_Clock: "collected_after e st [Clock] = all_posts st"
  by (simp add: collected_after_def)

lemma collected_after_shift:
  assumes "continues e st X st3"
  shows "collected_after e st3 evs = collected_after e st (evs @ X)"
  using assms
  by (simp add: continues_def collected_after_def responses_append dedup_append)

lemma continues_trans:
  assumes "continues e st X st3" "continues e st3 evs st'"
  shows "continues e st (evs @ X) st'"
proof -
  have h: "hist st' = (evs @ X) @ hist st"
    using assms by (simp add: continues_def)
  have a: "all_posts st' = collected_after e st (evs @ X)"
    using assms(2) collected_after_shift [OF assms(1)] by (simp add: continues_def)
  have "seen_ids st' = seen_ids st3 \<union> post_id ` set (responses e (hist st3) evs)"
    using assms(2) by (simp add: continues_def)
  also have "\<dots> = seen_ids st \<union> post_id ` set (responses e (hist st) (evs @ X))"
    using assms(1) by (simp add: continues_def responses_append image_Un Un_assoc)
  finally show ?thesis using h a by (simp add: continues_def)
qed

lemma continues_frame:
  assumes "continues e st X st'" "hist st'' = hist st'" "all_posts st'' = all_posts st'"
    "seen_ids st'' = seen_ids st'"
  shows "continues e st X st''"
  using assms by (simp add: continues_def)

lemma continues_clock: "continues e st [Clock] (snd (timed_out e d st))"
  by (simp add: continues_def collected_after_def timed_out_def)

lemma continues_clock': "continues e st [Clock] (st\<lparr>hist := Clock # hist st\<rparr>)"
  by (simp add: continues_def collected_after_def)

lemma continues_sleep: "continues e st [Sleep] (sleep st)"
  by (simp add: continues_def collected_after_def sleep_def)

lemma run_collect_continues:
  "continues e st
     (if sanitize_query q = [] then [] else [Search (sanitize_query q) srt sub l])
     (snd (collect (fst (run_query e srt sub q l st)) (snd (run_query e srt sub q l st))))"
  by (simp add: continues_def collected_after_def collect_frame collect_all_posts collect_seen
      run_query_def Let_def)

lemma in_time_shift:
  assumes "continues e st X st3"
  shows "in_time e cap d st3 rest = in_time e cap d st (rest @ X)"
  using assms collected_after_shift [OF assms, of rest]
  by (simp add: in_time_def continues_def)

lemma global_discipline_shift:
  assumes "continues e st X st3" "global_discipline e cap d st X"
    "global_discipline e cap d st3 evs"
  shows "global_discipline e cap d st (evs @ X)"
  using assms(3)
proof (induction evs)
  case Nil
  show ?case using assms(2) by simp
next
  case (Cons ev evs)
  then have r: "global_discipline e cap d st (evs @ X)" by simp
  show ?case
  proof (cases ev)
    case (Search q s sub k)
    with Cons.prems obtain rest where
      v: "sub = None" "evs = Clock # rest" "in_time e cap d st3 rest"
      "k = cap - int (length (collected_after e st3 rest))"
      by (auto split: list.splits event.splits)
    from v(3) have "in_time e cap d st (rest @ X)"
      using in_time_shift [OF assms(1)] by simp
    moreover from v(4) have "k = cap - int (length (collected_after e st (rest @ X)))"
      using collected_after_shift [OF assms(1)] by simp
    ultimately show ?thesis using r v(1,2) Search by simp
  qed (use r in simp_all)
qed

lemma phase2_discipline_shift:
  assumes "continues e st X st3" "phase2_discipline e cap d st X"
    "phase2_discipline e cap d st3 evs"
  shows "phase2_discipline e cap d st (evs @ X)"
  using assms(3)
proof (induction evs)
  case Nil
  show ?case using assms(2) by simp
next
  case (Cons ev evs)
  then have r: "phase2_discipline e cap d st (evs @ X)" by simp
  have hs: "hist st3 = X @ hist st" using assms(1) by (simp add: continues_def)
  show ?case
  proof (cases ev)
    case (Search q s sub k)
    with Cons.prems consider
      (clock) rest where "evs = Clock # rest" "in_time e cap d st3 rest"
      | (retry) q0 s0 k0 rest where "evs = Search q0 s0 sub k0 # rest" "CHR 0x22 \<in> set q0"
        "search_posts e (rest @ hist st3) q0 s0 sub k0 = []"
      by (auto split: list.splits event.splits)
    then show ?thesis
    proof cases
      case clock
      from clock(2) have "in_time e cap d st (rest @ X)"
        using in_time_shift [OF assms(1)] by simp
      then show ?thesis using r clock(1) Search by simp
    next
      case retry
      then show ?thesis using r Search hs by simp
    qed
  qed (use r in simp_all)
qed

lemma contributors_shift:
  assumes "continues e st X st3"
  shows "contributors e st (evs @ X) = contributors e st X @ contributors e st3 evs"
proof (induction evs)
  case Nil
  show ?case by simp
next
  case (Cons ev evs)
  have hs: "hist st3 = X @ hist st"
    and ss: "seen_ids st3 = seen_ids st \<union> post_id ` set (responses e (hist st) X)"
    using assms by (simp_all add: continues_def)
  have u: "seen_ids st \<union> post_id ` set (responses e (hist st) (evs @ X)) =
      seen_ids st3 \<union> post_id ` set (responses e (hist st3) evs)"
    unfolding ss hs by (simp add: responses_append image_Un Un_assoc)
  show ?case
    using Cons.IH unfolding contributors.simps append_Cons u
    by (simp add: hs split: event.splits option.splits)
qed

lemma contributors_no_search:
  "(\<And>q s c k. Search q s c k \<notin> set evs) \<Longrightarrow> contributors e st evs = []"
proof (induction evs)
  case Nil
  show ?case by simp
next
  case (Cons ev evs)
  then show ?case by (cases ev) auto
qed

subsection \<open>A query with its quote fallback\<close>

lemma sanitize_keeps_quote: "CHR 0x22 \<in> set q \<Longrightarrow> CHR 0x22 \<in> set (sanitize_query q)"
proof -
  assume a: "CHR 0x22 \<in> set q"
  have n: "\<not> is_space (CHR 0x22)" by (simp add: is_space_def)
  from a have "CHR 0x22 \<in> set (sub_AND False q)" by (rule sub_AND_keeps) simp_all
  then have "CHR 0x22 \<in> set (sub_parens (sub_AND False q))" by (simp add: sub_parens_def)
  then have "CHR 0x22 \<in> set (sub_spaces (sub_parens (sub_AND False q)))"
    using n by (rule sub_spaces_keeps)
  then show "CHR 0x22 \<in> set (sanitize_query q)"
    unfolding sanitize_query_def using n by (rule strip_keeps)
qed

text \<open>
  The shape of a query run with its fallback: no search (the query is empty after
  sanitizing), one search, or a search that returned nothing for a query with a
  double quote followed by the search of the stripped query. In each case the posts
  handed on are what the searches returned.
\<close>

lemma query_with_fallback_shape:
  fixes e srt sub q l st
  defines "r \<equiv> query_with_fallback e srt sub q l st"
    and "S1 \<equiv> Search (sanitize_query q) srt (Some sub) l"
    and "S2 \<equiv> Search (sanitize_query (strip_quotes q)) srt (Some sub) l"
    and "R1 \<equiv> search_posts e (hist st) (sanitize_query q) srt (Some sub) l"
  shows "\<exists>x. hist (snd r) = x @ hist st \<and> responses e (hist st) x = fst r \<and>
     (x = [] \<and> fst r = [] \<or>
      x = [S1] \<and> fst r = R1 \<or>
      x = [S2, S1] \<and> CHR 0x22 \<in> set (sanitize_query q) \<and> R1 = [])"
proof -
  let ?r1 = "run_query e srt (Some sub) q l st"
  show ?thesis
  proof (cases "sanitize_query q = []")
    case True
    then have "CHR 0x22 \<notin> set q" using sanitize_keeps_quote [of q] by auto
    with True have "r = ([], st)"
      by (simp add: r_def query_with_fallback_def quote_fallback_def run_query_def)
    then have "hist (snd r) = [] @ hist st \<and> responses e (hist st) [] = fst r \<and>
        [] = ([] :: event list) \<and> fst r = []" by simp
    then show ?thesis by blast
  next
    case ne: False
    then have r1: "fst ?r1 = R1" "hist (snd ?r1) = S1 # hist st"
      by (simp_all add: run_query_def R1_def S1_def Let_def)
    show ?thesis
    proof (cases "R1 = [] \<and> CHR 0x22 \<in> set q")
      case False
      then have "r = ?r1"
        using r1(1) by (auto simp: r_def query_with_fallback_def quote_fallback_def
            case_prod_beta)
      then have "hist (snd r) = [S1] @ hist st \<and> responses e (hist st) [S1] = fst r \<and>
          [S1] = [S1] \<and> fst r = R1"
        using r1 by (simp add: S1_def R1_def)
      then show ?thesis by blast
    next
      case True
      let ?r2 = "run_query e srt (Some sub) (strip_quotes q) l (snd ?r1)"
      have e2: "r = (fst ?r2, (snd ?r2)\<lparr>quote_retries := quote_retries (snd ?r2) + 1\<rparr>)"
        using True r1(1)
        by (simp add: r_def query_with_fallback_def quote_fallback_def Let_def case_prod_beta)
      have R1e: "R1 = []" using True by simp
      have qs: "CHR 0x22 \<in> set (sanitize_query q)" using True sanitize_keeps_quote by blast
      show ?thesis
      proof (cases "sanitize_query (strip_quotes q) = []")
        case True
        then have "fst r = []" "hist (snd r) = S1 # hist st"
          using e2 r1 by (simp_all add: run_query_def)
        then have "hist (snd r) = [S1] @ hist st \<and> responses e (hist st) [S1] = fst r \<and>
            [S1] = [S1] \<and> fst r = R1"
          using R1e by (simp add: S1_def R1_def [symmetric])
        then show ?thesis by blast
      next
        case False
        then have "fst r = search_posts e (S1 # hist st) (sanitize_query (strip_quotes q)) srt
            (Some sub) l" "hist (snd r) = S2 # S1 # hist st"
          using e2 r1 by (simp_all add: run_query_def S2_def Let_def)
        then have "hist (snd r) = [S2, S1] @ hist st \<and>
            responses e (hist st) [S2, S1] = fst r \<and>
            [S2, S1] = [S2, S1] \<and> CHR 0x22 \<in> set (sanitize_query q) \<and> R1 = []"
          using R1e qs by (simp add: S1_def S2_def R1_def [symmetric])
        then show ?thesis by blast
      qed
    qed
  qed
qed

lemma fallback_collect_continues:
  assumes "hist (snd r) = x @ hist st" "responses e (hist st) x = fst r"
    "all_posts (snd r) = all_posts st" "seen_ids (snd r) = seen_ids st"
  shows "continues e st x (snd (collect (fst r) (snd r)))"
  using assms
  by (simp add: continues_def collected_after_def collect_frame collect_all_posts collect_seen)

subsection \<open>The notions depend on the posts, the identifiers and the history only\<close>

lemma collected_after_cong:
  assumes "hist a = hist b" "all_posts a = all_posts b" "seen_ids a = seen_ids b"
  shows "collected_after e a evs = collected_after e b evs"
  using assms by (simp add: collected_after_def)

lemma continues_cong:
  assumes "hist a = hist b" "all_posts a = all_posts b" "seen_ids a = seen_ids b"
  shows "continues e a evs st' = continues e b evs st'"
  using assms by (simp add: continues_def collected_after_def)

lemma in_time_cong:
  assumes "hist a = hist b" "all_posts a = all_posts b" "seen_ids a = seen_ids b"
  shows "in_time e cap d a evs = in_time e cap d b evs"
  using assms by (simp add: in_time_def collected_after_def)

lemma global_discipline_cong:
  assumes "hist a = hist b" "all_posts a = all_posts b" "seen_ids a = seen_ids b"
  shows "global_discipline e cap d a evs = global_discipline e cap d b evs"
proof (induction evs)
  case Nil
  show ?case by simp
next
  case (Cons ev evs)
  show ?case
    using Cons.IH in_time_cong [OF assms] collected_after_cong [OF assms]
    by (simp split: event.splits list.splits)
qed

lemma phase2_discipline_cong:
  assumes "hist a = hist b" "all_posts a = all_posts b" "seen_ids a = seen_ids b"
  shows "phase2_discipline e cap d a evs = phase2_discipline e cap d b evs"
proof (induction evs)
  case Nil
  show ?case by simp
next
  case (Cons ev evs)
  show ?case
    using Cons.IH in_time_cong [OF assms] assms(1)
    by (simp split: event.splits list.splits)
qed

lemma contributors_cong:
  assumes "hist a = hist b" "all_posts a = all_posts b" "seen_ids a = seen_ids b"
  shows "contributors e a evs = contributors e b evs"
proof (induction evs)
  case Nil
  show ?case by simp
next
  case (Cons ev evs)
  show ?case
    using Cons.IH assms(1,3)
    by (simp split: event.splits option.splits)
qed

subsection \<open>Global fallback\<close>

lemma search_queries_append:
  "search_queries (a @ b) = search_queries b @ search_queries a"
  by (induction a) simp_all

lemma meta_phase1_step: "meta (phase1_step e plan srt l sub st) = meta st"
  by (simp add: phase1_step_def Let_def case_prod_beta sleep_def collect_frame
      query_with_fallback_frame)

lemma flag_phase1:
  "global_fallback_triggered (meta (phase1 e plan srt l d subs st)) =
   global_fallback_triggered (meta st)"
proof (induction subs arbitrary: st)
  case Nil then show ?case by simp
next
  case (Cons sub subs)
  show ?case
    by (simp add: case_prod_beta Cons.IH meta_phase1_step timed_out_def)
qed

lemma meta_phase2_queries: "meta (phase2_queries e srt l cap d sub qs st) = meta st"
proof (induction qs arbitrary: st)
  case Nil then show ?case by simp
next
  case (Cons q qs)
  show ?case
    by (simp add: case_prod_beta Cons.IH sleep_def collect_frame query_with_fallback_frame
        timed_out_def)
qed

lemma meta_phase2_subs: "meta (phase2_subs e plan srt l cap d subs st) = meta st"
proof (induction subs arbitrary: st)
  case Nil then show ?case by simp
next
  case (Cons sub subs)
  show ?case
    by (simp add: case_prod_beta Cons.IH meta_phase2_queries timed_out_def)
qed

lemma flag_after_phase2:
  "global_fallback_triggered (meta (after_phase2 e plan srt l cap d (init_state m h))) =
   global_fallback_triggered m"
  by (simp add: after_phase2_def after_phase1_def phase2_def Let_def meta_phase2_subs
      flag_phase1 init_state_def)


text \<open>
  The run of the loop over the global queries from the state \<open>st\<close>: its events, what it
  has collected, the discipline of its searches, and why it stopped.
\<close>

lemma global_loop_run:
  "\<exists>evs. continues e st evs (global_loop e srt cap d gqs st) \<and>
     global_discipline e cap d st evs \<and>
     prefix (search_queries evs) (wanted_global gqs) \<and>
     (search_queries evs = wanted_global gqs \<or>
      cap \<le> int (length (all_posts (global_loop e srt cap d gqs st))) \<or>
      (\<exists>rest. evs = Clock # rest \<and> d < monotonic e (rest @ hist st)))"
proof (induction gqs arbitrary: st)
  case Nil
  have "continues e st [] (global_loop e srt cap d [] st) \<and>
     global_discipline e cap d st [] \<and>
     prefix (search_queries []) (wanted_global []) \<and>
     (search_queries [] = wanted_global [] \<or>
      cap \<le> int (length (all_posts (global_loop e srt cap d [] st))) \<or>
      (\<exists>rest. [] = Clock # rest \<and> d < monotonic e (rest @ hist st)))"
    by (simp add: wanted_global_def continues_refl)
  then show ?case by blast
next
  case (Cons gq gqs)
  let ?G = "global_loop e srt cap d (gq # gqs) st"
  show ?case
  proof (cases "cap \<le> int (length (all_posts st))")
    case True
    then have g: "?G = st" by simp
    have "continues e st [] ?G \<and> global_discipline e cap d st [] \<and>
       prefix (search_queries []) (wanted_global (gq # gqs)) \<and>
       (search_queries [] = wanted_global (gq # gqs) \<or>
        cap \<le> int (length (all_posts ?G)) \<or>
        (\<exists>rest. [] = Clock # rest \<and> d < monotonic e (rest @ hist st)))"
      unfolding g using True by (simp add: continues_refl)
    then show ?thesis by blast
  next
    case nc: False
    show ?thesis
    proof (cases "monotonic e (hist st) > d")
      case True
      with nc have g: "?G = st\<lparr>hist := Clock # hist st\<rparr>"
        by (simp add: timed_out_def)
      have "\<exists>rest. [Clock] = Clock # rest \<and> d < monotonic e (rest @ hist st)"
        using True by simp
      then have "continues e st [Clock] ?G \<and> global_discipline e cap d st [Clock] \<and>
         prefix (search_queries [Clock]) (wanted_global (gq # gqs)) \<and>
         (search_queries [Clock] = wanted_global (gq # gqs) \<or>
          cap \<le> int (length (all_posts ?G)) \<or>
          (\<exists>rest. [Clock] = Clock # rest \<and> d < monotonic e (rest @ hist st)))"
        unfolding g by (simp add: continues_clock')
      then show ?thesis by blast
    next
      case False
      let ?st1 = "st\<lparr>hist := Clock # hist st\<rparr>"
      let ?k = "cap - int (length (all_posts ?st1))"
      let ?r = "run_query e srt None gq ?k ?st1"
      let ?st2 = "snd (collect (fst ?r) (snd ?r))"
      let ?st3 = "sleep ?st2"
      let ?x = "(if sanitize_query gq = [] then []
                 else [Search (sanitize_query gq) srt None ?k])"
      let ?X = "Sleep # ?x @ [Clock]"
      have g: "?G = global_loop e srt cap d gqs ?st3"
        using nc False by (simp add: timed_out_def case_prod_beta)
      have c1: "continues e st [Clock] ?st1" by (rule continues_clock')
      have c2: "continues e ?st1 ?x ?st2" by (rule run_collect_continues)
      have c3: "continues e ?st2 [Sleep] ?st3" by (rule continues_sleep)
      have c12: "continues e st (?x @ [Clock]) ?st2" by (rule continues_trans [OF c1 c2])
      have cX: "continues e st ?X ?st3"
        using continues_trans [OF c12 c3] by simp
      have it: "in_time e cap d st []"
        using nc False by (simp add: in_time_def collected_after_Nil)
      have dX: "global_discipline e cap d st ?X"
        using it by (simp add: collected_after_Nil)
      from Cons.IH [of ?st3] obtain evs where
        v: "continues e ?st3 evs (global_loop e srt cap d gqs ?st3)"
        "global_discipline e cap d ?st3 evs"
        "prefix (search_queries evs) (wanted_global gqs)"
        "search_queries evs = wanted_global gqs \<or>
         cap \<le> int (length (all_posts (global_loop e srt cap d gqs ?st3))) \<or>
         (\<exists>rest. evs = Clock # rest \<and> d < monotonic e (rest @ hist ?st3))"
        by blast
      let ?evs = "evs @ ?X"
      have h3: "hist ?st3 = ?X @ hist st" using cX by (simp add: continues_def)
      have w: "wanted_global (gq # gqs) = search_queries ?X @ wanted_global gqs"
        by (simp add: wanted_global_def search_queries_append)
      have sq: "search_queries ?evs = search_queries ?X @ search_queries evs"
        by (rule search_queries_append)
      have a: "continues e st ?evs ?G"
        unfolding g by (rule continues_trans [OF cX v(1)])
      have b: "global_discipline e cap d st ?evs"
        by (rule global_discipline_shift [OF cX dX v(2)])
      have c: "prefix (search_queries ?evs) (wanted_global (gq # gqs))"
        unfolding sq w using v(3) by simp
      have dd: "search_queries ?evs = wanted_global (gq # gqs) \<or>
          cap \<le> int (length (all_posts ?G)) \<or>
          (\<exists>rest. ?evs = Clock # rest \<and> d < monotonic e (rest @ hist st))"
      proof -
        from v(4) consider (all) "search_queries evs = wanted_global gqs"
          | (cap) "cap \<le> int (length (all_posts (global_loop e srt cap d gqs ?st3)))"
          | (late) rest where "evs = Clock # rest" "d < monotonic e (rest @ hist ?st3)"
          by blast
        then show ?thesis
        proof cases
          case all
          then have "search_queries ?evs = wanted_global (gq # gqs)" unfolding sq w by simp
          then show ?thesis by blast
        next
          case cap
          then show ?thesis unfolding g by blast
        next
          case late
          have "?evs = Clock # (rest @ ?X)" using late(1) by simp
          moreover have "d < monotonic e ((rest @ ?X) @ hist st)"
            using late(2) unfolding h3 by simp
          ultimately show ?thesis by blast
        qed
      qed
      from a b c dd show ?thesis by blast
    qed
  qed
qed


text \<open>
  Claim C3, as stated, fails in its last part: the loop over the global queries also
  stops when the deadline passes. Below, the plan has no community and the global
  queries \<^verbatim>\<open>g1\<close> and \<^verbatim>\<open>g2\<close>, the clock counts the events and the deadline is 2.
  The fallback is entered and the flag set; after \<^verbatim>\<open>g1\<close> has run the deadline has
  passed and \<^verbatim>\<open>g2\<close> is never searched, with no result collected and a cap of 20.
\<close>

theorem global_fallback_stops_at_deadline:
  "global_queries (plan_ex\<lparr>subreddits := []\<rparr>) = [''g1'', ''g2''] \<and>
   fan_out_search env_ex (plan_ex\<lparr>subreddits := []\<rparr>) 20 ''relevance'' meta0 2 [] =
     Inr ([], meta0\<lparr>global_fallback_triggered := True\<rparr>,
          [Clock, Sleep, Search ''g1'' ''relevance'' None 20, Clock, Clock])"
  by code_simp

text \<open>
  Claim C3, amended: after both phases the global fallback executes if and only if the
  number of collected results is below \<^verbatim>\<open>max(5, result_cap // 4)\<close> and the deadline
  has not passed. When it executes the flag is set and the plan's global queries are
  searched unscoped, in order, until the cap is reached, the deadline passes or the
  queries are exhausted: every search is made right after a reading of the clock that
  was not past the deadline, with fewer results held than the cap, and asks for the
  missing number of results; what is held at the end is what was held before followed
  by the new results of those searches; and the loop ends with all the queries
  searched, or with the cap reached, or on a reading of the clock past the deadline.
  Otherwise nothing is searched, the results are unchanged and the flag keeps the value
  it had when the engine was called.
\<close>

theorem global_fallback_amended:
  "(let st = after_phase2 e plan srt l cap deadline (init_state m h);
        st' = global_fallback e plan srt cap deadline st;
        entered = st\<lparr>hist := Clock # hist st\<rparr>;
        due = (int (length (all_posts st)) < max 5 (cap div 4) \<and>
               \<not> monotonic e (hist st) > deadline)
    in (per_query_limit plan cap = Inr l \<longrightarrow>
          fan_out_search e plan cap srt m deadline h =
            Inr (py_slice_to (all_posts st') cap, meta st', hist st')) \<and>
       (global_fallback_triggered (meta st') \<longleftrightarrow> global_fallback_triggered m \<or> due) \<and>
       (\<not> due \<longrightarrow>
          all_posts st' = all_posts st \<and>
          (\<exists>evs. hist st' = evs @ hist st \<and> search_queries evs = [])) \<and>
       (due \<longrightarrow>
          (\<exists>evs. hist st' = evs @ Clock # hist st \<and>
             all_posts st' = collected_after e entered evs \<and>
             global_discipline e cap deadline entered evs \<and>
             prefix (search_queries evs) (wanted_global (global_queries plan)) \<and>
             (search_queries evs = wanted_global (global_queries plan) \<or>
              cap \<le> int (length (all_posts st')) \<or>
              (\<exists>rest. evs = Clock # rest \<and> deadline < monotonic e (rest @ Clock # hist st))) \<and>
             ((\<forall>h'. monotonic e h' \<le> deadline) \<longrightarrow>
                cap \<le> int (length (all_posts st')) \<or>
                search_queries evs = wanted_global (global_queries plan)))))"
proof -
  let ?st = "after_phase2 e plan srt l cap deadline (init_state m h)"
  let ?st' = "global_fallback e plan srt cap deadline ?st"
  let ?en = "?st\<lparr>hist := Clock # hist ?st\<rparr>"
  let ?due = "int (length (all_posts ?st)) < max 5 (cap div 4) \<and>
               \<not> monotonic e (hist ?st) > deadline"
  let ?st1 = "?st\<lparr>hist := Clock # hist ?st,
                 meta := (meta ?st)\<lparr>global_fallback_triggered := True\<rparr>\<rparr>"
  let ?W = "wanted_global (global_queries plan)"
  have a: "per_query_limit plan cap = Inr l \<longrightarrow>
          fan_out_search e plan cap srt m deadline h =
            Inr (py_slice_to (all_posts ?st') cap, meta ?st', hist ?st')"
    by (simp add: fan_out_search_def Let_def)
  have yes: "?due \<Longrightarrow> ?st' = global_loop e srt cap deadline (global_queries plan) ?st1"
    by (simp add: global_fallback_def Let_def timed_out_def)
  have no: "\<not> ?due \<Longrightarrow> ?st' = ?st \<or> ?st' = ?st\<lparr>hist := Clock # hist ?st\<rparr>"
    by (auto simp: global_fallback_def Let_def timed_out_def)
  have b: "global_fallback_triggered (meta ?st') \<longleftrightarrow> global_fallback_triggered m \<or> ?due"
  proof (cases ?due)
    case True
    from yes [OF True] True show ?thesis by (simp add: meta_global_loop)
  next
    case False
    from no [OF False] have "meta ?st' = meta ?st" by auto
    then have "global_fallback_triggered (meta ?st') = global_fallback_triggered m"
      by (simp add: flag_after_phase2)
    with False show ?thesis by blast
  qed
  have c: "\<not> ?due \<longrightarrow> all_posts ?st' = all_posts ?st \<and>
          (\<exists>evs. hist ?st' = evs @ hist ?st \<and> search_queries evs = [])"
  proof
    assume n: "\<not> ?due"
    from no [OF n] have p: "all_posts ?st' = all_posts ?st" by auto
    from no [OF n] have "(hist ?st' = [] @ hist ?st \<and> search_queries [] = []) \<or>
        (hist ?st' = [Clock] @ hist ?st \<and> search_queries [Clock] = [])" by auto
    then have "\<exists>evs. hist ?st' = evs @ hist ?st \<and> search_queries evs = []" by blast
    with p show "all_posts ?st' = all_posts ?st \<and>
          (\<exists>evs. hist ?st' = evs @ hist ?st \<and> search_queries evs = [])" by blast
  qed
  have d: "?due \<longrightarrow>
          (\<exists>evs. hist ?st' = evs @ Clock # hist ?st \<and>
             all_posts ?st' = collected_after e ?en evs \<and>
             global_discipline e cap deadline ?en evs \<and>
             prefix (search_queries evs) ?W \<and>
             (search_queries evs = ?W \<or>
              cap \<le> int (length (all_posts ?st')) \<or>
              (\<exists>rest. evs = Clock # rest \<and> deadline < monotonic e (rest @ Clock # hist ?st))) \<and>
             ((\<forall>h'. monotonic e h' \<le> deadline) \<longrightarrow>
                cap \<le> int (length (all_posts ?st')) \<or> search_queries evs = ?W))"
  proof
    assume y: ?due
    have e1: "hist ?st1 = hist ?en" "all_posts ?st1 = all_posts ?en"
      "seen_ids ?st1 = seen_ids ?en" by simp_all
    from global_loop_run [of e ?st1 srt cap deadline "global_queries plan"]
    obtain evs where v: "continues e ?st1 evs ?st'"
      "global_discipline e cap deadline ?st1 evs"
      "prefix (search_queries evs) ?W"
      "search_queries evs = ?W \<or> cap \<le> int (length (all_posts ?st')) \<or>
       (\<exists>rest. evs = Clock # rest \<and> deadline < monotonic e (rest @ hist ?st1))"
      unfolding yes [OF y] by blast
    have ce: "continues e ?en evs ?st'"
      using v(1) continues_cong [OF e1] by blast
    have p1: "hist ?st' = evs @ Clock # hist ?st"
      using ce by (simp add: continues_def)
    have p2: "all_posts ?st' = collected_after e ?en evs"
      using ce by (simp add: continues_def)
    have p3: "global_discipline e cap deadline ?en evs"
      using v(2) global_discipline_cong [OF e1] by blast
    have p5: "search_queries evs = ?W \<or> cap \<le> int (length (all_posts ?st')) \<or>
       (\<exists>rest. evs = Clock # rest \<and> deadline < monotonic e (rest @ Clock # hist ?st))"
      using v(4) by simp
    have p6: "(\<forall>h'. monotonic e h' \<le> deadline) \<longrightarrow>
                cap \<le> int (length (all_posts ?st')) \<or> search_queries evs = ?W"
      using p5 by (auto simp: not_less [symmetric])
    have "hist ?st' = evs @ Clock # hist ?st \<and>
             all_posts ?st' = collected_after e ?en evs \<and>
             global_discipline e cap deadline ?en evs \<and>
             prefix (search_queries evs) ?W \<and>
             (search_queries evs = ?W \<or>
              cap \<le> int (length (all_posts ?st')) \<or>
              (\<exists>rest. evs = Clock # rest \<and> deadline < monotonic e (rest @ Clock # hist ?st))) \<and>
             ((\<forall>h'. monotonic e h' \<le> deadline) \<longrightarrow>
                cap \<le> int (length (all_posts ?st')) \<or> search_queries evs = ?W)"
      by (intro conjI p1 p2 p3 v(3) p5 p6)
    then show "\<exists>evs. hist ?st' = evs @ Clock # hist ?st \<and>
             all_posts ?st' = collected_after e ?en evs \<and>
             global_discipline e cap deadline ?en evs \<and>
             prefix (search_queries evs) ?W \<and>
             (search_queries evs = ?W \<or>
              cap \<le> int (length (all_posts ?st')) \<or>
              (\<exists>rest. evs = Clock # rest \<and> deadline < monotonic e (rest @ Clock # hist ?st))) \<and>
             ((\<forall>h'. monotonic e h' \<le> deadline) \<longrightarrow>
                cap \<le> int (length (all_posts ?st')) \<or> search_queries evs = ?W)"
      by (rule exI)
  qed
  from a b c d show ?thesis unfolding Let_def by (intro conjI)
qed

theorem global_fallback_amended_witness:
  "per_query_limit (plan_ex\<lparr>subreddits := []\<rparr>) 20 = Inr 5 \<and>
   (\<forall>h'. monotonic env_empty h' \<le> 100) \<and>
   int (length (all_posts (after_phase2 env_empty (plan_ex\<lparr>subreddits := []\<rparr>) ''relevance'' 5 20 100
          (init_state meta0 [])))) < max 5 (20 div 4) \<and>
   global_fallback_triggered (meta (global_fallback env_empty (plan_ex\<lparr>subreddits := []\<rparr>)
      ''relevance'' 20 100
      (after_phase2 env_empty (plan_ex\<lparr>subreddits := []\<rparr>) ''relevance'' 5 20 100
          (init_state meta0 [])))) \<and>
   fan_out_search env_empty (plan_ex\<lparr>subreddits := []\<rparr>) 20 ''relevance'' meta0 100 [] =
     Inr ([], meta0\<lparr>global_fallback_triggered := True\<rparr>,
          [Sleep, Search ''g2'' ''relevance'' None 20, Clock,
           Sleep, Search ''g1'' ''relevance'' None 20, Clock, Clock]) \<and>
   monotonic env_ex (hist (after_phase2 env_ex (plan_ex\<lparr>subreddits := []\<rparr>) ''relevance'' 5 20 (- 1)
          (init_state meta0 []))) > - 1 \<and>
   \<not> global_fallback_triggered (meta (global_fallback env_ex (plan_ex\<lparr>subreddits := []\<rparr>)
      ''relevance'' 20 (- 1)
      (after_phase2 env_ex (plan_ex\<lparr>subreddits := []\<rparr>) ''relevance'' 5 20 (- 1)
          (init_state meta0 []))))"
proof -
  let ?P = "plan_ex\<lparr>subreddits := []\<rparr>"
  let ?s1 = "after_phase2 env_empty ?P ''relevance'' 5 20 100 (init_state meta0 [])"
  let ?s2 = "after_phase2 env_ex ?P ''relevance'' 5 20 (- 1) (init_state meta0 [])"
  have p: "per_query_limit ?P 20 = Inr 5" by code_simp
  have c: "\<forall>h'. monotonic env_empty h' \<le> 100" by (simp add: env_empty_def)
  have d1: "int (length (all_posts ?s1)) < max 5 (20 div 4)" by code_simp
  have d1': "\<not> monotonic env_empty (hist ?s1) > 100" by (simp add: env_empty_def)
  have f: "\<not> global_fallback_triggered meta0" by (simp add: meta0_def)
  have d2: "monotonic env_ex (hist ?s2) > - 1" by (simp add: env_ex_def)
  have ev: "fan_out_search env_empty ?P 20 ''relevance'' meta0 100 [] =
     Inr ([], meta0\<lparr>global_fallback_triggered := True\<rparr>,
          [Sleep, Search ''g2'' ''relevance'' None 20, Clock,
           Sleep, Search ''g1'' ''relevance'' None 20, Clock, Clock])"
    by code_simp
  from global_fallback_amended [where e = env_empty and plan = ?P and srt = "''relevance''"
      and l = 5 and cap = 20 and deadline = 100 and m = meta0 and h = "[]"] d1 d1'
  have t1: "global_fallback_triggered (meta (global_fallback env_empty ?P ''relevance'' 20 100 ?s1))"
    unfolding Let_def by blast
  from global_fallback_amended [where e = env_ex and plan = ?P and srt = "''relevance''"
      and l = 5 and cap = 20 and deadline = "- 1" and m = meta0 and h = "[]"] d2 f
  have t2: "\<not> global_fallback_triggered (meta (global_fallback env_ex ?P ''relevance'' 20 (- 1) ?s2))"
    unfolding Let_def by blast
  show ?thesis by (intro conjI p c d1 t1 ev d2 t2)
qed




subsection \<open>Phase 1 and Phase 2\<close>

lemma query_with_fallback_events:
  "\<exists>evs. hist (snd (query_with_fallback e srt sub q l st)) = evs @ hist st \<and>
     set evs \<subseteq> query_events srt l sub [q]"
proof -
  let ?r1 = "run_query e srt (Some sub) q l st"
  let ?x1 = "(if sanitize_query q = [] then [] else [Search (sanitize_query q) srt (Some sub) l])"
  let ?x2 = "(if sanitize_query (strip_quotes q) = [] then []
              else [Search (sanitize_query (strip_quotes q)) srt (Some sub) l])"
  have h1: "hist (snd ?r1) = ?x1 @ hist st" by (rule run_query_hist)
  have "hist (snd (query_with_fallback e srt sub q l st)) = ?x1 @ hist st \<or>
      hist (snd (query_with_fallback e srt sub q l st)) = (?x2 @ ?x1) @ hist st"
    by (simp add: query_with_fallback_def quote_fallback_def Let_def case_prod_beta
        run_query_hist)
  moreover have "set ?x1 \<subseteq> query_events srt l sub [q]" by (simp add: query_events_def)
  moreover have "set (?x2 @ ?x1) \<subseteq> query_events srt l sub [q]" by (simp add: query_events_def)
  ultimately show ?thesis by blast
qed

lemma query_events_Cons:
  "query_events srt l sub (q # qs) = query_events srt l sub [q] \<union> query_events srt l sub qs"
  by (simp add: query_events_def)

lemma phase2_queries_events:
  "\<exists>evs. hist (phase2_queries e srt l cap d sub qs st) = evs @ hist st \<and>
     set evs \<subseteq> {Sleep, Clock} \<union> query_events srt l sub qs"
proof (induction qs arbitrary: st)
  case Nil
  show ?case by simp
next
  case (Cons q qs)
  let ?A = "{Sleep, Clock} \<union> query_events srt l sub (q # qs)"
  show ?case
  proof (cases "cap \<le> int (length (all_posts st))")
    case True
    then have "hist (phase2_queries e srt l cap d sub (q # qs) st) = [] @ hist st" by simp
    moreover have "set [] \<subseteq> ?A" by simp
    ultimately show ?thesis by blast
  next
    case nc: False
    show ?thesis
    proof (cases "monotonic e (hist st) > d")
      case True
      with nc have "hist (phase2_queries e srt l cap d sub (q # qs) st) = [Clock] @ hist st"
        by (simp add: timed_out_def)
      moreover have "set [Clock] \<subseteq> ?A" by simp
      ultimately show ?thesis by blast
    next
      case False
      let ?st1 = "st\<lparr>hist := Clock # hist st\<rparr>"
      let ?r = "query_with_fallback e srt sub q l ?st1"
      let ?st3 = "sleep (snd (collect (fst ?r) (snd ?r)))"
      have g: "phase2_queries e srt l cap d sub (q # qs) st =
          phase2_queries e srt l cap d sub qs ?st3"
        using nc False by (simp add: timed_out_def case_prod_beta)
      from query_with_fallback_events [of e srt sub q l ?st1] obtain x where
        x: "hist (snd ?r) = x @ hist ?st1" "set x \<subseteq> query_events srt l sub [q]" by blast
      have h3: "hist ?st3 = (Sleep # x @ [Clock]) @ hist st"
        using x(1) by (simp add: sleep_def collect_frame)
      from Cons.IH [of ?st3] obtain evs where
        v: "hist (phase2_queries e srt l cap d sub qs ?st3) = evs @ hist ?st3"
        "set evs \<subseteq> {Sleep, Clock} \<union> query_events srt l sub qs" by blast
      have "hist (phase2_queries e srt l cap d sub (q # qs) st) =
          (evs @ Sleep # x @ [Clock]) @ hist st"
        using g v(1) h3 by simp
      moreover have "set (evs @ Sleep # x @ [Clock]) \<subseteq> ?A"
        using v(2) x(2) unfolding query_events_Cons [of srt l sub q qs] by auto
      ultimately show ?thesis by blast
    qed
  qed
qed

lemma phase2_events_Cons:
  "phase2_events plan srt l (c # ys) =
     query_events srt l c (drop 1 (queries_for_sub plan c)) \<union> phase2_events plan srt l ys"
  by (auto simp: phase2_events_def)

lemma phase2_subs_events:
  "\<exists>evs. hist (phase2_subs e plan srt l cap d subs st) = evs @ hist st \<and>
     set evs \<subseteq> phase2_events plan srt l subs"
proof (induction subs arbitrary: st)
  case Nil
  show ?case by simp
next
  case (Cons sub subs)
  let ?A = "phase2_events plan srt l (sub # subs)"
  have sc: "{Sleep, Clock} \<subseteq> ?A" by (simp add: phase2_events_def)
  show ?case
  proof (cases "cap \<le> int (length (all_posts st))")
    case True
    then have "hist (phase2_subs e plan srt l cap d (sub # subs) st) = [] @ hist st" by simp
    moreover have "set [] \<subseteq> ?A" by simp
    ultimately show ?thesis by blast
  next
    case nc: False
    show ?thesis
    proof (cases "monotonic e (hist st) > d")
      case True
      with nc have "hist (phase2_subs e plan srt l cap d (sub # subs) st) = [Clock] @ hist st"
        by (simp add: timed_out_def)
      moreover have "set [Clock] \<subseteq> ?A" using sc by simp
      ultimately show ?thesis by blast
    next
      case False
      let ?st1 = "st\<lparr>hist := Clock # hist st\<rparr>"
      let ?qs = "drop 1 (queries_for_sub plan sub)"
      let ?st2 = "phase2_queries e srt l cap d sub ?qs ?st1"
      have g: "phase2_subs e plan srt l cap d (sub # subs) st =
          phase2_subs e plan srt l cap d subs ?st2"
        using nc False by (simp add: timed_out_def)
      from phase2_queries_events [of e srt l cap d sub ?qs ?st1] obtain x where
        x: "hist ?st2 = x @ hist ?st1" "set x \<subseteq> {Sleep, Clock} \<union> query_events srt l sub ?qs"
        by blast
      from Cons.IH [of ?st2] obtain evs where
        v: "hist (phase2_subs e plan srt l cap d subs ?st2) = evs @ hist ?st2"
        "set evs \<subseteq> phase2_events plan srt l subs" by blast
      have "hist (phase2_subs e plan srt l cap d (sub # subs) st) = (evs @ x @ [Clock]) @ hist st"
        using g v(1) x(1) by simp
      moreover have "set (evs @ x @ [Clock]) \<subseteq> ?A"
        using v(2) x(2) sc unfolding phase2_events_Cons [of plan srt l sub subs] by auto
      ultimately show ?thesis by blast
    qed
  qed
qed

lemma phase2_events:
  "\<exists>evs. hist (phase2 e plan srt l cap d st) = evs @ hist st \<and>
     set evs \<subseteq> phase2_events plan srt l (yielding_subs st)"
proof (cases "int (length (all_posts st)) < cap \<and> yielding_subs st \<noteq> []")
  case True
  then show ?thesis using phase2_subs_events [of e plan srt l cap d "yielding_subs st" st]
    by (simp add: phase2_def)
next
  case False
  then have "hist (phase2 e plan srt l cap d st) = [] @ hist st" by (auto simp: phase2_def)
  moreover have "set [] \<subseteq> phase2_events plan srt l (yielding_subs st)" by simp
  ultimately show ?thesis by blast
qed










subsection \<open>The per-query budget\<close>

lemma phase1_step_events:
  "\<exists>evs. hist (phase1_step e plan srt l sub st) = evs @ hist st \<and>
     set evs \<subseteq> phase1_events plan srt l [sub]"
proof (cases "queries_for_sub plan sub")
  case Nil
  then have "hist (phase1_step e plan srt l sub st) = [] @ hist st"
    by (simp add: phase1_step_def)
  moreover have "set [] \<subseteq> phase1_events plan srt l [sub]" by simp
  ultimately show ?thesis by blast
next
  case (Cons q qs)
  let ?r = "query_with_fallback e srt sub q l st"
  from query_with_fallback_events [of e srt sub q l st] obtain x where
    x: "hist (snd ?r) = x @ hist st" "set x \<subseteq> query_events srt l sub [q]" by blast
  have "hist (phase1_step e plan srt l sub st) = (Sleep # x) @ hist st"
    using Cons x(1) by (simp add: phase1_step_def Let_def case_prod_beta sleep_def collect_frame)
  moreover have "set (Sleep # x) \<subseteq> phase1_events plan srt l [sub]"
    using Cons x(2) by (auto simp: phase1_events_def)
  ultimately show ?thesis by blast
qed

lemma phase1_events_Cons:
  "phase1_events plan srt l (c # subs) = phase1_events plan srt l [c] \<union> phase1_events plan srt l subs"
  by (auto simp: phase1_events_def)

lemma phase1_events:
  "\<exists>evs. hist (phase1 e plan srt l d subs st) = evs @ hist st \<and>
     set evs \<subseteq> phase1_events plan srt l subs"
proof (induction subs arbitrary: st)
  case Nil
  show ?case by simp
next
  case (Cons sub subs)
  let ?A = "phase1_events plan srt l (sub # subs)"
  have sc: "Clock \<in> ?A" by (simp add: phase1_events_def)
  show ?case
  proof (cases "monotonic e (hist st) > d")
    case True
    then have "hist (phase1 e plan srt l d (sub # subs) st) = [Clock] @ hist st"
      by (simp add: timed_out_def)
    moreover have "set [Clock] \<subseteq> ?A" using sc by simp
    ultimately show ?thesis by blast
  next
    case False
    let ?st1 = "st\<lparr>hist := Clock # hist st\<rparr>"
    let ?st2 = "phase1_step e plan srt l sub ?st1"
    have g: "phase1 e plan srt l d (sub # subs) st = phase1 e plan srt l d subs ?st2"
      using False by (simp add: timed_out_def)
    from phase1_step_events [of e plan srt l sub ?st1] obtain x where
      x: "hist ?st2 = x @ hist ?st1" "set x \<subseteq> phase1_events plan srt l [sub]" by blast
    from Cons.IH [of ?st2] obtain evs where
      v: "hist (phase1 e plan srt l d subs ?st2) = evs @ hist ?st2"
      "set evs \<subseteq> phase1_events plan srt l subs" by blast
    have "hist (phase1 e plan srt l d (sub # subs) st) = (evs @ x @ [Clock]) @ hist st"
      using g v(1) x(1) by simp
    moreover have "set (evs @ x @ [Clock]) \<subseteq> ?A"
      using v(2) x(2) sc unfolding phase1_events_Cons [of plan srt l sub subs] by auto
    ultimately show ?thesis by blast
  qed
qed




section \<open>Properties of the plan builder\<close>

lemma guard_queries_nonempty: "guard_queries gq i \<noteq> []"
  by (simp add: guard_queries_def)

lemma map_of_fill_sub_queries:
  "map_of (fill_sub_queries subs sq gq i) s =
     (if s \<in> set subs \<and> (map_of sq s = None \<or> map_of sq s = Some [])
      then Some (guard_queries gq i) else map_of sq s)"
proof (induction subs arbitrary: sq)
  case Nil
  show ?case by simp
next
  case (Cons c subs)
  show ?case
    by (auto simp: Cons.IH update_conv' guard_queries_nonempty)
qed

text \<open>
  Claim C6, as stated, fails in one detail: a community without queries is not given
  the plan's global queries but the first two of them. With the three global queries
  \<^verbatim>\<open>g1\<close>, \<^verbatim>\<open>g2\<close>, \<^verbatim>\<open>g3\<close>, community \<^verbatim>\<open>a\<close> is given \<^verbatim>\<open>g1\<close> and
  \<^verbatim>\<open>g2\<close>.
\<close>

theorem guard_gives_two_global_queries:
  "parse_query_plan (Some parsed_ex) ''pain'' =
     Some \<lparr>intent = ''i'', subreddits = [''a'', ''b''],
           sub_queries = [(''b'', [''u'']), (''a'', [''g1'', ''g2''])],
           global_queries = [''g1'', ''g2'', ''g3''], mode = ''pain'', source = ''llm''\<rparr> \<and>
   queries_for_sub \<lparr>intent = ''i'', subreddits = [''a'', ''b''],
           sub_queries = [(''b'', [''u'']), (''a'', [''g1'', ''g2''])],
           global_queries = [''g1'', ''g2'', ''g3''], mode = ''pain'', source = ''llm''\<rparr> ''a'' \<noteq>
     [''g1'', ''g2'', ''g3'']"
  by code_simp

text \<open>
  Claim C6, amended: in every plan the parser produces, every listed community has its
  own, non-empty query list, and that is what \<^verbatim>\<open>queries_for_sub\<close> returns. A
  community whose list was absent or empty in the answer is given the first two of the
  answer's global queries (all of them when there are at most two), or the intent
  string alone when there is no global query; a community that came with queries keeps
  them.
\<close>

theorem parse_query_plan_guard:
  assumes "parse_query_plan (Some p) md = Some plan"
  shows "\<forall>s \<in> set (subreddits plan).
           (\<exists>qs. map_of (sub_queries plan) s = Some qs \<and> qs \<noteq> [] \<and>
              queries_for_sub plan s = qs \<and>
              qs = (let sq = (case p_sub_queries p of None \<Rightarrow> [] | Some x \<Rightarrow> x);
                        gq = (case p_global_queries p of None \<Rightarrow> [] | Some x \<Rightarrow> x);
                        i = (case p_intent p of None \<Rightarrow> [] | Some x \<Rightarrow> x)
                    in if map_of sq s = None \<or> map_of sq s = Some []
                       then (if gq \<noteq> [] then take 2 gq else [i])
                       else the (map_of sq s)))"
proof
  fix s
  assume s: "s \<in> set (subreddits plan)"
  let ?subs = "(case p_subreddits p of None \<Rightarrow> [] | Some x \<Rightarrow> x)"
  let ?sq = "(case p_sub_queries p of None \<Rightarrow> [] | Some x \<Rightarrow> x)"
  let ?gq = "(case p_global_queries p of None \<Rightarrow> [] | Some x \<Rightarrow> x)"
  let ?i = "(case p_intent p of None \<Rightarrow> [] | Some x \<Rightarrow> x)"
  from assms have ne: "?subs \<noteq> []"
    by (auto simp: parse_query_plan_def Let_def split: if_splits)
  with assms have pl: "subreddits plan = ?subs"
    "sub_queries plan = fill_sub_queries ?subs ?sq ?gq ?i"
    by (auto simp: parse_query_plan_def Let_def)
  let ?qs = "(if map_of ?sq s = None \<or> map_of ?sq s = Some []
              then guard_queries ?gq ?i else the (map_of ?sq s))"
  have m: "map_of (sub_queries plan) s = Some ?qs"
    using s pl by (auto simp: map_of_fill_sub_queries)
  have n: "?qs \<noteq> []" by (auto simp: guard_queries_nonempty)
  have q0: "queries_for_sub plan s = (if ?qs \<noteq> [] then ?qs else global_queries plan)"
    by (simp only: queries_for_sub_def m option.case)
  from n have "(if ?qs \<noteq> [] then ?qs else global_queries plan) = ?qs" by (rule if_P)
  with q0 have q: "queries_for_sub plan s = ?qs" by (rule trans)
  from m n q show "\<exists>qs. map_of (sub_queries plan) s = Some qs \<and> qs \<noteq> [] \<and>
              queries_for_sub plan s = qs \<and>
              qs = (let sq = (case p_sub_queries p of None \<Rightarrow> [] | Some x \<Rightarrow> x);
                        gq = (case p_global_queries p of None \<Rightarrow> [] | Some x \<Rightarrow> x);
                        i = (case p_intent p of None \<Rightarrow> [] | Some x \<Rightarrow> x)
                    in if map_of sq s = None \<or> map_of sq s = Some []
                       then (if gq \<noteq> [] then take 2 gq else [i])
                       else the (map_of sq s))"
    unfolding Let_def guard_queries_def by blast
qed

theorem parse_query_plan_guard_witness:
  "parse_query_plan (Some parsed_ex) ''pain'' =
     Some \<lparr>intent = ''i'', subreddits = [''a'', ''b''],
           sub_queries = [(''b'', [''u'']), (''a'', [''g1'', ''g2''])],
           global_queries = [''g1'', ''g2'', ''g3''], mode = ''pain'', source = ''llm''\<rparr> \<and>
   queries_for_sub \<lparr>intent = ''i'', subreddits = [''a'', ''b''],
           sub_queries = [(''b'', [''u'']), (''a'', [''g1'', ''g2''])],
           global_queries = [''g1'', ''g2'', ''g3''], mode = ''pain'', source = ''llm''\<rparr> ''a'' \<noteq> [] \<and>
   queries_for_sub \<lparr>intent = ''i'', subreddits = [''a'', ''b''],
           sub_queries = [(''b'', [''u'']), (''a'', [''g1'', ''g2''])],
           global_queries = [''g1'', ''g2'', ''g3''], mode = ''pain'', source = ''llm''\<rparr> ''b'' \<noteq> []"
proof -
  let ?plan = "\<lparr>intent = ''i'', subreddits = [''a'', ''b''],
           sub_queries = [(''b'', [''u'']), (''a'', [''g1'', ''g2''])],
           global_queries = [''g1'', ''g2'', ''g3''], mode = ''pain'', source = ''llm''\<rparr>"
  have ev: "parse_query_plan (Some parsed_ex) ''pain'' = Some ?plan" by code_simp
  from parse_query_plan_guard [OF ev]
  have "\<forall>s \<in> set (subreddits ?plan). queries_for_sub ?plan s \<noteq> []" by metis
  then have "queries_for_sub ?plan ''a'' \<noteq> []" "queries_for_sub ?plan ''b'' \<noteq> []"
    by simp_all
  with ev show ?thesis by (intro conjI)
qed

section \<open>Properties of the fetch client\<close>

lemma handled_attempt:
  "(\<exists>s. handle_exceptions (fst (try_attempt out k h)) = Inr s) \<or>
   (\<exists>ex. handle_exceptions (fst (try_attempt out k h)) = Inl ex \<and>
      \<not> isinstance_RequestException ex \<and> \<not> isinstance_ValueError ex)"
proof (cases "fst (try_attempt out k h)")
  case (Inl ex)
  then show ?thesis by (simp add: handle_exceptions_def)
next
  case (Inr s)
  then show ?thesis by (simp add: handle_exceptions_def)
qed

lemma fetch_attempts_outcome:
  "(\<exists>v. fst (fetch_attempts get url ps attempts h) = Inr v) \<or>
   (\<exists>ex. fst (fetch_attempts get url ps attempts h) = Inl ex \<and>
      \<not> isinstance_RequestException ex \<and> \<not> isinstance_ValueError ex)"
proof (induction attempts arbitrary: h)
  case Nil
  show ?case by simp
next
  case (Cons k rest)
  let ?r = "handle_exceptions (fst (try_attempt (get h url ps) k (Get url ps # h)))"
  show ?case
  proof (cases ?r)
    case (Inl ex)
    with handled_attempt [of "get h url ps" k "Get url ps # h"]
    have "\<not> isinstance_RequestException ex \<and> \<not> isinstance_ValueError ex" by simp
    with Inl show ?thesis by (simp add: case_prod_beta)
  next
    case (Inr s)
    show ?thesis
    proof (cases s)
      case (Return v)
      with Inr show ?thesis by (simp add: case_prod_beta)
    next
      case Continue
      with Inr Cons.IH show ?thesis by (simp add: case_prod_beta)
    qed
  qed
qed

lemma try_attempt_hist_other:
  assumes "\<not> (\<exists>r. out = Responds r \<and> status_code r = 429)"
  shows "snd (try_attempt out k h) = h" "fst (try_attempt out k h) \<noteq> Inr Continue"
  using assms
  by (cases out; simp add: try_attempt_def split: sum.splits)+

lemma attempt_429:
  assumes "get h url ps = Responds r" "status_code r = 429"
  shows "fetch_attempts get url ps (k # rest) h =
     (if k < 3 then fetch_attempts get url ps rest (Backoff (backoff_delays ! k) # Get url ps # h)
      else (Inr None, Get url ps # h))"
  using assms by (simp add: try_attempt_def handle_exceptions_def backoff_delays_def)

lemma handle_not_continue:
  "r \<noteq> Inr Continue \<Longrightarrow> handle_exceptions r \<noteq> Inr Continue"
  by (cases r) (simp_all add: handle_exceptions_def)

lemma attempt_other:
  assumes "\<not> (\<exists>r. get h url ps = Responds r \<and> status_code r = 429)"
  shows "fetch_attempts get url ps (k # rest) h =
     (case handle_exceptions (fst (try_attempt (get h url ps) k (Get url ps # h))) of
        Inr (Return v) \<Rightarrow> (Inr v, Get url ps # h)
      | Inr Continue \<Rightarrow> (Inr None, Get url ps # h)
      | Inl ex \<Rightarrow> (Inl ex, Get url ps # h))"
proof -
  let ?t = "try_attempt (get h url ps) k (Get url ps # h)"
  have s: "snd ?t = Get url ps # h" and n: "fst ?t \<noteq> Inr Continue"
    using try_attempt_hist_other [OF assms] by simp_all
  from n have "handle_exceptions (fst ?t) \<noteq> Inr Continue" by (rule handle_not_continue)
  then show ?thesis
    using s by (simp add: case_prod_beta split: sum.splits step.splits)
qed

lemma attempt_other_hist:
  assumes "\<not> (\<exists>r. get h url ps = Responds r \<and> status_code r = 429)"
  shows "snd (fetch_attempts get url ps (k # rest) h) = Get url ps # h"
  unfolding attempt_other [where get = get and h = h and url = url and ps = ps, OF assms]
  by (simp split: sum.splits step.splits)

lemma fetch_schedule_from:
  "k \<le> 3 \<Longrightarrow>
   \<exists>evs n. snd (fetch_attempts get url ps [k..<4] h) = evs @ h \<and>
     backoffs evs = take n (drop k backoff_delays) \<and> requests_made evs = n + 1"
proof (induction "3 - k" arbitrary: k h)
  case 0
  then have k: "k = 3" by simp
  have u: "[k..<4] = [3]" unfolding k by (simp add: upt_rec)
  show ?case
  proof (cases "\<exists>r. get h url ps = Responds r \<and> status_code r = 429")
    case True
    then obtain r where r: "get h url ps = Responds r" "status_code r = 429" by blast
    from attempt_429 [where get = get and h = h and url = url and ps = ps and k = 3
        and rest = "[]", OF r]
    have "snd (fetch_attempts get url ps [k..<4] h) = [Get url ps] @ h" unfolding u by simp
    moreover have "backoffs [Get url ps] = take 0 (drop k backoff_delays)" by simp
    moreover have "requests_made [Get url ps] = 0 + 1" by simp
    ultimately show ?thesis by blast
  next
    case False
    from attempt_other_hist [where get = get and h = h and url = url and ps = ps and k = 3
        and rest = "[]", OF False]
    have "snd (fetch_attempts get url ps [k..<4] h) = [Get url ps] @ h" unfolding u by simp
    moreover have "backoffs [Get url ps] = take 0 (drop k backoff_delays)" by simp
    moreover have "requests_made [Get url ps] = 0 + 1" by simp
    ultimately show ?thesis by blast
  qed
next
  case (Suc m)
  then have k: "k < 3" by simp
  then have u: "[k..<4] = k # [Suc k..<4]" by (simp add: upt_conv_Cons)
  show ?case
  proof (cases "\<exists>r. get h url ps = Responds r \<and> status_code r = 429")
    case True
    then obtain r where r: "get h url ps = Responds r" "status_code r = 429" by blast
    from attempt_429 [where get = get and h = h and url = url and ps = ps and k = k
        and rest = "[Suc k..<4]", OF r] k
    have g: "fetch_attempts get url ps [k..<4] h =
        fetch_attempts get url ps [Suc k..<4] (Backoff (backoff_delays ! k) # Get url ps # h)"
      unfolding u by simp
    have "m = 3 - Suc k" "Suc k \<le> 3" using Suc(2) k by simp_all
    from Suc(1) [OF this, of "Backoff (backoff_delays ! k) # Get url ps # h"]
    obtain evs n where v:
      "snd (fetch_attempts get url ps [Suc k..<4] (Backoff (backoff_delays ! k) # Get url ps # h)) =
         evs @ Backoff (backoff_delays ! k) # Get url ps # h"
      "backoffs evs = take n (drop (Suc k) backoff_delays)" "requests_made evs = n + 1"
      by blast
    let ?evs = "evs @ [Backoff (backoff_delays ! k), Get url ps]"
    have ba: "\<And>a b. backoffs (a @ b) = backoffs b @ backoffs a"
      subgoal for a b by (induction a) simp_all
      done
    have ra: "\<And>a b. requests_made (a @ b) = requests_made a + requests_made b"
      subgoal for a b by (induction a) simp_all
      done
    have d: "drop k backoff_delays = backoff_delays ! k # drop (Suc k) backoff_delays"
    proof -
      have "k < length backoff_delays" using k by (simp add: backoff_delays_def)
      then show ?thesis by (rule Cons_nth_drop_Suc [symmetric])
    qed
    have "snd (fetch_attempts get url ps [k..<4] h) = ?evs @ h" using g v(1) by simp
    moreover have "backoffs ?evs = take (Suc n) (drop k backoff_delays)"
      unfolding d using v(2) by (simp add: ba)
    moreover have "requests_made ?evs = Suc n + 1" using v(3) by (simp add: ra)
    ultimately show ?thesis by blast
  next
    case False
    from attempt_other_hist [where get = get and h = h and url = url and ps = ps and k = k
        and rest = "[Suc k..<4]", OF False]
    have "snd (fetch_attempts get url ps [k..<4] h) = [Get url ps] @ h" unfolding u by simp
    moreover have "backoffs [Get url ps] = take 0 (drop k backoff_delays)" by simp
    moreover have "requests_made [Get url ps] = 0 + 1" by simp
    ultimately show ?thesis by blast
  qed
qed

lemma attempts_list: "[0..<length backoff_delays + 1] = [0, 1, 2, 3]"
  by code_simp

lemma fetch_json_first:
  assumes "\<not> (\<exists>r. get h url ps = Responds r \<and> status_code r = 429)"
  shows "fetch_json get url ps h =
     (case handle_exceptions (fst (try_attempt (get h url ps) 0 (Get url ps # h))) of
        Inr (Return v) \<Rightarrow> (Inr v, Get url ps # h)
      | Inr Continue \<Rightarrow> (Inr None, Get url ps # h)
      | Inl ex \<Rightarrow> (Inl ex, Get url ps # h))"
  unfolding fetch_json_def attempts_list
  using attempt_other [where get = get and h = h and url = url and ps = ps and k = 0
      and rest = "[1, 2, 3]", OF assms] .

text \<open>
  Claim C7: the fetch client always returns a value (the decoded answer or absent) and
  never raises. The code does not do this. Its two \<^verbatim>\<open>except\<close> clauses catch
  \<^verbatim>\<open>requests.RequestException\<close> and \<^verbatim>\<open>ValueError\<close> only, and \<^verbatim>\<open>resp.json()\<close>
  is called inside the \<^verbatim>\<open>try\<close>: on an answer with status 200, a JSON content type
  and a body nested deeper than the recursion limit, decoding raises
  \<^verbatim>\<open>RecursionError\<close>, which is neither, and the client lets it escape after one
  request, against its own docstring (returns parsed JSON or \<^verbatim>\<open>None\<close> on failure).
\<close>

theorem fetch_json_raises_on_deep_json:
  "deep_json [] ''u'' None =
     Responds \<lparr>status_code = 200, content_type = ''application/json; charset=UTF-8'',
               body = Inl RecursionError\<rparr> \<and>
   \<not> isinstance_RequestException RecursionError \<and>
   \<not> isinstance_ValueError RecursionError \<and>
   fetch_json deep_json ''u'' None [] = (Inl RecursionError, [Get ''u'' None])"
proof -
  have a: "deep_json [] ''u'' None =
     Responds \<lparr>status_code = 200, content_type = ''application/json; charset=UTF-8'',
               body = Inl RecursionError\<rparr>"
    by (simp add: deep_json_def)
  have b: "\<not> isinstance_RequestException RecursionError"
    by (simp add: isinstance_RequestException_def)
  have c: "\<not> isinstance_ValueError RecursionError"
    by (simp add: isinstance_ValueError_def)
  have d: "fetch_json deep_json ''u'' None [] = (Inl RecursionError, [Get ''u'' None])"
    by code_simp
  show ?thesis by (intro conjI a b c d)
qed

text \<open>
  What the client does guarantee. An exception leaves it only if it is neither a
  \<^verbatim>\<open>RequestException\<close> nor a \<^verbatim>\<open>ValueError\<close>; when the request raises only the
  former and decoding only the latter, a value is returned. It makes at most four
  requests; between them it sleeps 5, then 10, then 20 seconds, one delay per 429
  answer, and when the fourth answer is a 429 too it returns absent. A request that
  raises a \<^verbatim>\<open>RequestException\<close>, a content type that is neither JSON nor JavaScript,
  an HTTP error status and a body that is not JSON all give absent; a good JSON answer
  is returned.
\<close>

lemma fetch_json_outcomes:
  "((\<exists>v. fst (fetch_json get url ps h) = Inr v) \<or>
    (\<exists>ex. fst (fetch_json get url ps h) = Inl ex \<and>
       \<not> isinstance_RequestException ex \<and> \<not> isinstance_ValueError ex)) \<and>
   (\<exists>evs n. snd (fetch_json get url ps h) = evs @ h \<and>
      backoffs evs = take n [5, 10, 20] \<and> requests_made evs = n + 1) \<and>
   ((\<forall>h'. \<exists>r. get h' url ps = Responds r \<and> status_code r = 429) \<longrightarrow>
      fetch_json get url ps h =
        (Inr None, [Get url ps, Backoff 20, Get url ps, Backoff 10, Get url ps, Backoff 5,
                    Get url ps] @ h)) \<and>
   (\<forall>ex. get h url ps = Raises ex \<and> isinstance_RequestException ex \<longrightarrow>
      fetch_json get url ps h = (Inr None, Get url ps # h)) \<and>
   (\<forall>r. get h url ps = Responds r \<and> status_code r \<noteq> 429 \<and>
        (\<not> str_contains ''json'' (content_type r) \<and>
         \<not> str_contains ''javascript'' (content_type r) \<or>
         400 \<le> status_code r \<and> status_code r < 600 \<or> body r = Inl JSONDecodeError) \<longrightarrow>
      fetch_json get url ps h = (Inr None, Get url ps # h)) \<and>
   (\<forall>r j. get h url ps = Responds r \<and> status_code r < 400 \<and>
        (str_contains ''json'' (content_type r) \<or> str_contains ''javascript'' (content_type r)) \<and>
        body r = Inr j \<longrightarrow>
      fetch_json get url ps h = (Inr (Some j), Get url ps # h))"
proof -
  have a: "(\<exists>v. fst (fetch_json get url ps h) = Inr v) \<or>
    (\<exists>ex. fst (fetch_json get url ps h) = Inl ex \<and>
       \<not> isinstance_RequestException ex \<and> \<not> isinstance_ValueError ex)"
    unfolding fetch_json_def by (rule fetch_attempts_outcome)
  have "length backoff_delays + 1 = 4" by (simp add: backoff_delays_def)
  then have u4: "[0..<length backoff_delays + 1] = [0..<4]" by (rule arg_cong)
  have d0: "drop 0 backoff_delays = [5, 10, 20]" by (simp add: backoff_delays_def)
  have "\<exists>evs n. snd (fetch_attempts get url ps [0..<4] h) = evs @ h \<and>
      backoffs evs = take n (drop 0 backoff_delays) \<and> requests_made evs = n + 1"
    by (rule fetch_schedule_from) simp
  then have b: "\<exists>evs n. snd (fetch_json get url ps h) = evs @ h \<and>
      backoffs evs = take n [5, 10, 20] \<and> requests_made evs = n + 1"
    unfolding fetch_json_def u4 d0 .
  have c: "(\<forall>h'. \<exists>r. get h' url ps = Responds r \<and> status_code r = 429) \<longrightarrow>
      fetch_json get url ps h =
        (Inr None, [Get url ps, Backoff 20, Get url ps, Backoff 10, Get url ps, Backoff 5,
                    Get url ps] @ h)"
  proof
    assume all: "\<forall>h'. \<exists>r. get h' url ps = Responds r \<and> status_code r = 429"
    have step: "fetch_attempts get url ps (k # rest) h' =
       (if k < 3 then fetch_attempts get url ps rest (Backoff (backoff_delays ! k) # Get url ps # h')
        else (Inr None, Get url ps # h'))" for k rest h'
    proof -
      from all obtain r where r: "get h' url ps = Responds r" "status_code r = 429" by blast
      show ?thesis
        by (rule attempt_429 [where get = get and h = h' and url = url and ps = ps, OF r])
    qed
    show "fetch_json get url ps h =
        (Inr None, [Get url ps, Backoff 20, Get url ps, Backoff 10, Get url ps, Backoff 5,
                    Get url ps] @ h)"
      unfolding fetch_json_def attempts_list
      by (simp add: step backoff_delays_def del: fetch_attempts.simps)
  qed
  have d: "\<forall>ex. get h url ps = Raises ex \<and> isinstance_RequestException ex \<longrightarrow>
      fetch_json get url ps h = (Inr None, Get url ps # h)"
  proof (intro allI impI)
    fix ex
    assume r: "get h url ps = Raises ex \<and> isinstance_RequestException ex"
    then have "\<not> (\<exists>r. get h url ps = Responds r \<and> status_code r = 429)" by simp
    from fetch_json_first [where get = get and h = h and url = url and ps = ps, OF this] r
    show "fetch_json get url ps h = (Inr None, Get url ps # h)"
      by (simp add: try_attempt_def handle_exceptions_def)
  qed
  have e: "\<forall>r. get h url ps = Responds r \<and> status_code r \<noteq> 429 \<and>
        (\<not> str_contains ''json'' (content_type r) \<and>
         \<not> str_contains ''javascript'' (content_type r) \<or>
         400 \<le> status_code r \<and> status_code r < 600 \<or> body r = Inl JSONDecodeError) \<longrightarrow>
      fetch_json get url ps h = (Inr None, Get url ps # h)"
  proof (intro allI impI)
    fix r
    assume r: "get h url ps = Responds r \<and> status_code r \<noteq> 429 \<and>
        (\<not> str_contains ''json'' (content_type r) \<and>
         \<not> str_contains ''javascript'' (content_type r) \<or>
         400 \<le> status_code r \<and> status_code r < 600 \<or> body r = Inl JSONDecodeError)"
    then have "\<not> (\<exists>r. get h url ps = Responds r \<and> status_code r = 429)" by auto
    from fetch_json_first [where get = get and h = h and url = url and ps = ps, OF this] r
    show "fetch_json get url ps h = (Inr None, Get url ps # h)"
      by (auto simp: try_attempt_def handle_exceptions_def isinstance_RequestException_def
          isinstance_ValueError_def raise_for_status_def json_of_def split: sum.splits)
  qed
  have f: "\<forall>r j. get h url ps = Responds r \<and> status_code r < 400 \<and>
        (str_contains ''json'' (content_type r) \<or> str_contains ''javascript'' (content_type r)) \<and>
        body r = Inr j \<longrightarrow>
      fetch_json get url ps h = (Inr (Some j), Get url ps # h)"
  proof (intro allI impI)
    fix r j
    assume r: "get h url ps = Responds r \<and> status_code r < 400 \<and>
        (str_contains ''json'' (content_type r) \<or> str_contains ''javascript'' (content_type r)) \<and>
        body r = Inr j"
    then have "\<not> (\<exists>r. get h url ps = Responds r \<and> status_code r = 429)" by auto
    from fetch_json_first [where get = get and h = h and url = url and ps = ps, OF this] r
    show "fetch_json get url ps h = (Inr (Some j), Get url ps # h)"
      by (auto simp: try_attempt_def handle_exceptions_def raise_for_status_def json_of_def)
  qed
  show ?thesis by (intro conjI a b c d e f)
qed

lemma fetch_json_outcomes_example:
  "fetch_json always_429 ''u'' None [] =
     (Inr None, [Get ''u'' None, Backoff 20, Get ''u'' None, Backoff 10, Get ''u'' None,
                 Backoff 5, Get ''u'' None]) \<and>
   fetch_json twice_429 ''u'' None [] =
     (Inr (Some 7), [Get ''u'' None, Backoff 10, Get ''u'' None, Backoff 5, Get ''u'' None])"
proof -
  have h: "\<forall>h'. \<exists>r. always_429 h' ''u'' None = Responds r \<and> status_code r = 429"
    by (simp add: always_429_def)
  from fetch_json_outcomes [where get = always_429 and url = "''u''" and ps = None
      and h = "[]"] h
  have a: "fetch_json always_429 ''u'' None [] =
     (Inr None, [Get ''u'' None, Backoff 20, Get ''u'' None, Backoff 10, Get ''u'' None,
                 Backoff 5, Get ''u'' None])" by simp
  have b: "fetch_json twice_429 ''u'' None [] =
     (Inr (Some 7), [Get ''u'' None, Backoff 10, Get ''u'' None, Backoff 5, Get ''u'' None])"
    by code_simp
  show ?thesis by (intro conjI a b)
qed

section \<open>Properties of the validation pass\<close>

lemma about_checks_append: "about_checks (a @ b) = about_checks b @ about_checks a"
  by (induction a) simp_all

lemma length_validate_one: "length (validate_one name data valid) \<le> Suc (length valid)"
proof -
  have "length (AList.update k v valid) \<le> Suc (length valid)" for k v
    by (induction valid) auto
  then show ?thesis by (auto simp: validate_one_def Let_def split: option.splits)
qed

lemma validate_loop_trace:
  "\<exists>evs. snd (validate_loop ab names valid h) = evs @ h \<and> about_checks evs = names"
proof (induction names arbitrary: valid h)
  case Nil
  show ?case by simp
next
  case (Cons name names)
  from Cons.IH [of "validate_one name (ab h name) valid" "Sleep # About name # h"]
  obtain evs where v:
    "snd (validate_loop ab names (validate_one name (ab h name) valid) (Sleep # About name # h)) =
       evs @ Sleep # About name # h" "about_checks evs = names" by blast
  have "snd (validate_loop ab (name # names) valid h) = (evs @ [Sleep, About name]) @ h"
    using v(1) by simp
  moreover have "about_checks (evs @ [Sleep, About name]) = name # names"
    using v(2) by (simp add: about_checks_append)
  ultimately show ?case by blast
qed

lemma validate_loop_length:
  "length (fst (validate_loop ab names valid h)) \<le> length valid + length names"
proof (induction names arbitrary: valid h)
  case Nil
  show ?case by simp
next
  case (Cons name names)
  have "length (fst (validate_loop ab (name # names) valid h)) \<le>
      length (validate_one name (ab h name) valid) + length names"
    using Cons.IH by simp
  also have "\<dots> \<le> Suc (length valid) + length names"
    using length_validate_one [of name "ab h name" valid] by simp
  finally show ?case by simp
qed

lemma validate_one_keys:
  "fst ` set (validate_one name data valid) \<subseteq>
     fst ` set valid \<union>
     {d. \<exists>a. data = Some a \<and> about_kind a = ''t5'' \<and> \<not> about_over18 a \<and>
           d = (case about_display_name a of None \<Rightarrow> name | Some x \<Rightarrow> x)}"
  by (auto simp: validate_one_def Let_def dom_update [simplified dom_map_of_conv_image_fst]
      split: option.splits)

lemma validate_loop_keys:
  "fst ` set (fst (validate_loop ab names valid h)) \<subseteq>
     fst ` set valid \<union>
     {d. \<exists>hh nm a. nm \<in> set names \<and> ab hh nm = Some a \<and> about_kind a = ''t5'' \<and>
           \<not> about_over18 a \<and> d = (case about_display_name a of None \<Rightarrow> nm | Some x \<Rightarrow> x)}"
proof -
  define G where "G ns = {d. \<exists>hh nm a. nm \<in> set ns \<and> ab hh nm = Some a \<and> about_kind a = ''t5'' \<and>
           \<not> about_over18 a \<and> d = (case about_display_name a of None \<Rightarrow> nm | Some x \<Rightarrow> x)}"
    for ns
  have mono: "G ns \<subseteq> G (n # ns)" for n ns
    unfolding G_def by (rule Collect_mono) auto
  have one: "fst ` set (validate_one n (ab hh n) vl) \<subseteq> fst ` set vl \<union> G (n # ns)" for n hh vl ns
  proof -
    have "{d. \<exists>a. ab hh n = Some a \<and> about_kind a = ''t5'' \<and> \<not> about_over18 a \<and>
           d = (case about_display_name a of None \<Rightarrow> n | Some x \<Rightarrow> x)} \<subseteq> G (n # ns)"
      unfolding G_def by (rule Collect_mono) (metis list.set_intros(1))
    with validate_one_keys [of n "ab hh n" vl] show ?thesis
      by (meson Un_mono order_refl order_trans)
  qed
  have "fst ` set (fst (validate_loop ab names valid h)) \<subseteq> fst ` set valid \<union> G names"
  proof (induction names arbitrary: valid h)
    case Nil
    show ?case by simp
  next
    case (Cons name names)
    have "fst ` set (fst (validate_loop ab (name # names) valid h)) \<subseteq>
        fst ` set (validate_one name (ab h name) valid) \<union> G names"
      using Cons.IH [of "validate_one name (ab h name) valid" "Sleep # About name # h"]
      by simp
    also have "\<dots> \<subseteq> (fst ` set valid \<union> G (name # names)) \<union> G (name # names)"
      by (rule Un_mono [OF one mono])
    finally show ?case by (simp add: Un_assoc)
  qed
  then show ?thesis unfolding G_def .
qed

lemma rounding_small:
  fixes z :: real
  assumes "\<bar>z\<bar> \<le> 2"
  shows "\<bar>z\<bar> / 2 ^ 53 \<le> 1 / 1000"
proof -
  have "\<bar>z\<bar> / 2 ^ 53 \<le> 2 / 2 ^ 53" using assms by (rule divide_right_mono) simp
  also have "\<dots> \<le> (1::real) / 1000" by simp
  finally show ?thesis .
qed

lemma float_errors:
  assumes fm: "float_model fl" and c: "0 < c" "v \<le> c"
  shows "\<bar>fsub fl 1 (fdiv fl (real v) (real c)) - (1 - real v / real c)\<bar> \<le> 2 / 1000"
    and "\<bar>f030 fl - 3 / 10\<bar> \<le> 1 / 1000"
proof -
  define x where "x = real v / real c"
  define q where "q = fdiv fl (real v) (real c)"
  define s where "s = fsub fl 1 q"
  from fm have d: "\<And>x y. y \<noteq> 0 \<Longrightarrow> \<bar>fdiv fl x y - x / y\<bar> \<le> \<bar>x / y\<bar> / 2 ^ 53"
    and b: "\<And>x y. \<bar>fsub fl x y - (x - y)\<bar> \<le> \<bar>x - y\<bar> / 2 ^ 53"
    and t: "\<bar>f030 fl - 3 / 10\<bar> \<le> (3 / 10) / 2 ^ 53"
    unfolding float_model_def by blast+
  have x: "0 \<le> x" "x \<le> 1" using c by (simp_all add: x_def)
  have "real c \<noteq> 0" using c(1) by simp
  then have "\<bar>q - x\<bar> \<le> \<bar>x\<bar> / 2 ^ 53" unfolding q_def x_def by (rule d)
  moreover have "\<bar>x\<bar> / 2 ^ 53 \<le> 1 / 1000" using x by (intro rounding_small) simp
  ultimately have e1: "\<bar>q - x\<bar> \<le> 1 / 1000" by (rule order_trans)
  have q1: "q - x \<le> 1 / 1000" using e1 by (rule abs_le_D1)
  have q2: "- (q - x) \<le> 1 / 1000" using e1 by (rule abs_le_D2)
  have "1 - q \<le> 2" "- (1 - q) \<le> 2" using q1 q2 x by linarith+
  then have "\<bar>1 - q\<bar> \<le> 2" by (rule abs_leI)
  then have "\<bar>1 - q\<bar> / 2 ^ 53 \<le> 1 / 1000" by (rule rounding_small)
  moreover have "\<bar>s - (1 - q)\<bar> \<le> \<bar>1 - q\<bar> / 2 ^ 53" unfolding s_def by (rule b)
  ultimately have e2: "\<bar>s - (1 - q)\<bar> \<le> 1 / 1000" by (rule order_trans [rotated])
  have s1: "s - (1 - q) \<le> 1 / 1000" using e2 by (rule abs_le_D1)
  have s2: "- (s - (1 - q)) \<le> 1 / 1000" using e2 by (rule abs_le_D2)
  have "s - (1 - x) \<le> 2 / 1000" "- (s - (1 - x)) \<le> 2 / 1000"
    using q1 q2 s1 s2 by linarith+
  then have "\<bar>s - (1 - x)\<bar> \<le> 2 / 1000" by (rule abs_leI)
  then show "\<bar>fsub fl 1 (fdiv fl (real v) (real c)) - (1 - real v / real c)\<bar> \<le> 2 / 1000"
    by (simp add: s_def q_def x_def)
  have "(3 / 10) / 2 ^ 53 \<le> (1::real) / 1000" by simp
  with t show "\<bar>f030 fl - 3 / 10\<bar> \<le> 1 / 1000" by (rule order_trans)
qed

lemma float_warn:
  assumes fm: "float_model fl" and c: "0 < c" "v \<le> c" "c \<le> 20" and m: "3 * c < 10 * (c - v)"
  shows "f030 fl < fsub fl 1 (fdiv fl (real v) (real c))"
proof -
  define x where "x = real v / real c"
  define s where "s = fsub fl 1 (fdiv fl (real v) (real c))"
  from m c have "3 * c + 1 + 10 * v \<le> 10 * c" by simp
  then have "real (3 * c + 1 + 10 * v) \<le> real (10 * c)" by (rule of_nat_mono)
  then have r: "3 * real c + 1 + 10 * real v \<le> 10 * real c" by simp
  have "real c \<le> 20" using c(3) by simp
  with r have "200 * real v \<le> 139 * real c" by simp
  moreover have "0 < real c" using c(1) by simp
  ultimately have x: "x \<le> 139 / 200" by (simp add: x_def field_simps)
  from float_errors [OF fm c(1,2)] have e: "\<bar>s - (1 - x)\<bar> \<le> 2 / 1000"
    "\<bar>f030 fl - 3 / 10\<bar> \<le> 1 / 1000" unfolding s_def x_def .
  have "- (s - (1 - x)) \<le> 2 / 1000" using e(1) by (rule abs_le_D2)
  moreover have "f030 fl - 3 / 10 \<le> 1 / 1000" using e(2) by (rule abs_le_D1)
  ultimately have "f030 fl < s" using x by linarith
  then show ?thesis by (simp add: s_def)
qed

lemma float_no_warn:
  assumes fm: "float_model fl" and c: "0 < c" "v \<le> c" "c \<le> 20" and m: "10 * (c - v) < 3 * c"
  shows "\<not> f030 fl < fsub fl 1 (fdiv fl (real v) (real c))"
proof -
  define x where "x = real v / real c"
  define s where "s = fsub fl 1 (fdiv fl (real v) (real c))"
  from m c have "7 * c + 1 \<le> 10 * v" by simp
  then have "real (7 * c + 1) \<le> real (10 * v)" by (rule of_nat_mono)
  then have r: "7 * real c + 1 \<le> 10 * real v" by simp
  have "real c \<le> 20" using c(3) by simp
  with r have "141 * real c \<le> 200 * real v" by simp
  moreover have "0 < real c" using c(1) by simp
  ultimately have x: "141 / 200 \<le> x" by (simp add: x_def field_simps)
  from float_errors [OF fm c(1,2)] have e: "\<bar>s - (1 - x)\<bar> \<le> 2 / 1000"
    "\<bar>f030 fl - 3 / 10\<bar> \<le> 1 / 1000" unfolding s_def x_def .
  have "s - (1 - x) \<le> 2 / 1000" using e(1) by (rule abs_le_D1)
  moreover have "- (f030 fl - 3 / 10) \<le> 1 / 1000" using e(2) by (rule abs_le_D2)
  ultimately have "\<not> f030 fl < s" using x by linarith
  then show ?thesis by (simp add: s_def)
qed

lemma map_of_filter_keys:
  "map_of (filter (\<lambda>(s, qs). s \<in> A) al) k = (if k \<in> A then map_of al k else None)"
  by (induction al) auto

lemma validate_subreddits_20:
  "validate_subreddits ab names 20 h = validate_loop ab (take 20 names) [] h"
  by (simp add: validate_subreddits_def py_slice_to_def)

text \<open>
  Claim C8: only validated names and their query lists survive in the plan, which
  proceeds with the validated subset. The code does not do this.
  \<^verbatim>\<open>_validate_subreddits\<close> files a validated community under the display name the
  site reports (\<^verbatim>\<open>valid[display]\<close>), while \<^verbatim>\<open>fetch_posts_noapi\<close> keeps a name of
  the plan only if the plan's own spelling is among those keys, under the comment
  \<^verbatim>\<open>Keep only validated subs\<close>. For the plan naming \<^verbatim>\<open>python\<close>, which the site
  knows as \<^verbatim>\<open>Python\<close>, the one name checked is validated
  (\<^verbatim>\<open>subreddits_validated\<close> is 1, no warning is appended), and the plan comes out
  with no community and no query list: the validated community does not survive.
\<close>

theorem validate_llm_plan_drops_validated:
  "about_python [] ''python'' =
     Some \<lparr>about_kind = ''t5'', about_display_name = Some ''Python'',
           about_subscribers = 1000, about_over18 = False\<rparr> \<and>
   validate_subreddits about_python (subreddits plan_python) 20 [] =
     ([(''Python'', 1000)], [Sleep, About ''python'']) \<and>
   subreddits_validated (fst (snd (validate_llm_plan exact_ops about_python plan_python meta0 []))) = 1 \<and>
   warnings (fst (snd (validate_llm_plan exact_ops about_python plan_python meta0 []))) = [] \<and>
   subreddits (fst (validate_llm_plan exact_ops about_python plan_python meta0 [])) = [] \<and>
   sub_queries (fst (validate_llm_plan exact_ops about_python plan_python meta0 [])) = []"
proof -
  have a: "about_python [] ''python'' =
     Some \<lparr>about_kind = ''t5'', about_display_name = Some ''Python'',
           about_subscribers = 1000, about_over18 = False\<rparr>"
    by (simp add: about_python_def)
  have v: "validate_subreddits about_python (subreddits plan_python) 20 [] =
     ([(''Python'', 1000)], [Sleep, About ''python''])"
    by (simp add: validate_subreddits_def py_slice_to_def plan_python_def about_python_def
        validate_one_def)
  have l: "length (subreddits plan_python) = 1" by (simp add: plan_python_def)
  have b: "subreddits_validated
      (fst (snd (validate_llm_plan exact_ops about_python plan_python meta0 []))) = 1"
    by (simp add: validate_llm_plan_def v l Let_def)
  have c: "warnings (fst (snd (validate_llm_plan exact_ops about_python plan_python meta0 []))) = []"
    by (simp add: validate_llm_plan_def v l Let_def exact_ops_def meta0_def)
  have d: "subreddits (fst (validate_llm_plan exact_ops about_python plan_python meta0 [])) = []"
    by (simp add: validate_llm_plan_def v Let_def) (simp add: plan_python_def)
  have e: "sub_queries (fst (validate_llm_plan exact_ops about_python plan_python meta0 [])) = []"
    by (simp add: validate_llm_plan_def v Let_def) (simp add: plan_python_def)
  show ?thesis by (intro conjI a v b c d e)
qed

text \<open>
  What the LLM branch does guarantee. The names checked are the first twenty of the
  plan, in order, one request each. The keys of the validated dictionary are display
  names of existing communities that are not adult-only. The plan that comes out
  lists the communities of the plan whose own spelling is among those keys, in the
  original order, with their own query lists, and keeps its intent, global queries,
  mode and source: it is returned whatever the number of failures. When more than 30%
  of the checked names fail (counting as the code does, checked names minus keys) the
  warning is appended; when fewer than 30% fail, or nothing was checked, no warning is
  appended. The comparison is made in floating point, of which the rounding model is
  assumed.
\<close>

lemma validate_llm_plan_result:
  assumes "float_model fl"
  shows "(let checked = take 20 (subreddits plan);
              validated = fst (validate_subreddits ab (subreddits plan) 20 h);
              valid_names = fst ` set validated;
              c = length checked;
              v = length validated;
              r = validate_llm_plan fl ab plan m h;
              plan' = fst r; m' = fst (snd r); h' = snd (snd r)
          in c \<le> 20 \<and> v \<le> c \<and>
             (\<exists>evs. h' = evs @ h \<and> about_checks evs = checked) \<and>
             valid_names \<subseteq>
               {d. \<exists>hh nm a. nm \<in> set checked \<and> ab hh nm = Some a \<and> about_kind a = ''t5'' \<and>
                  \<not> about_over18 a \<and>
                  d = (case about_display_name a of None \<Rightarrow> nm | Some x \<Rightarrow> x)} \<and>
             subreddits plan' = filter (\<lambda>s. s \<in> valid_names) (subreddits plan) \<and>
             subseq (subreddits plan') (subreddits plan) \<and>
             set (subreddits plan') \<subseteq> valid_names \<and>
             fst ` set (sub_queries plan') \<subseteq> valid_names \<and>
             (\<forall>s \<in> valid_names. map_of (sub_queries plan') s = map_of (sub_queries plan) s \<and>
                queries_for_sub plan' s = queries_for_sub plan s) \<and>
             intent plan' = intent plan \<and> global_queries plan' = global_queries plan \<and>
             mode plan' = mode plan \<and> source plan' = source plan \<and>
             subreddits_validated m' = v \<and>
             (0 < c \<and> 3 * c < 10 * (c - v) \<longrightarrow>
                warnings m' = warnings m @ [ValidationFailed (c - v) c]) \<and>
             (c = 0 \<or> 10 * (c - v) < 3 * c \<longrightarrow> warnings m' = warnings m))"
proof -
  let ?checked = "take 20 (subreddits plan)"
  let ?vr = "validate_subreddits ab (subreddits plan) 20 h"
  let ?validated = "fst ?vr"
  let ?A = "fst ` set ?validated"
  let ?c = "length ?checked"
  let ?v = "length ?validated"
  let ?r = "validate_llm_plan fl ab plan m h"
  let ?plan = "plan\<lparr>subreddits := filter (\<lambda>s. s \<in> ?A) (subreddits plan),
                     sub_queries := filter (\<lambda>(s, qs). s \<in> ?A) (sub_queries plan)\<rparr>"
  let ?m2 = "m\<lparr>plan_source := ''llm'', meta_intent := intent plan,
                subreddits_suggested := length (subreddits plan),
                subreddits_validated := ?v\<rparr>"
  let ?warn = "f030 fl < fsub fl 1 (fdiv fl (real ?v) (real ?c))"
  have cm: "min (length (subreddits plan)) 20 = ?c" by simp
  have p: "fst ?r = ?plan" by (simp add: validate_llm_plan_def Let_def case_prod_beta)
  have hh: "snd (snd ?r) = snd ?vr" by (simp add: validate_llm_plan_def Let_def case_prod_beta)
  have mm: "fst (snd ?r) =
      (if 0 < ?c \<and> ?warn then ?m2\<lparr>warnings := warnings ?m2 @ [ValidationFailed (?c - ?v) ?c]\<rparr>
       else ?m2)"
    unfolding validate_llm_plan_def Let_def case_prod_beta cm by simp
  have c20: "?c \<le> 20" by simp
  have vc: "?v \<le> ?c"
    using validate_loop_length [of ab ?checked "[]" h] by (simp add: validate_subreddits_20)
  have tr: "\<exists>evs. snd (snd ?r) = evs @ h \<and> about_checks evs = ?checked"
    unfolding hh validate_subreddits_20 by (rule validate_loop_trace)
  have ge: "?A \<subseteq>
      {d. \<exists>hh nm a. nm \<in> set ?checked \<and> ab hh nm = Some a \<and> about_kind a = ''t5'' \<and>
         \<not> about_over18 a \<and> d = (case about_display_name a of None \<Rightarrow> nm | Some x \<Rightarrow> x)}"
    using validate_loop_keys [of ab ?checked "[]" h] by (simp add: validate_subreddits_20)
  have s1: "subreddits (fst ?r) = filter (\<lambda>s. s \<in> ?A) (subreddits plan)" by (simp add: p)
  have s2: "subseq (subreddits (fst ?r)) (subreddits plan)" unfolding s1 by simp
  have s3: "set (subreddits (fst ?r)) \<subseteq> ?A" unfolding s1 by auto
  have "fst ` set (filter (\<lambda>(s, qs). s \<in> B) al) \<subseteq> B" for B :: "string set"
    and al :: "(string \<times> string list) list"
    by (induction al) auto
  then have s4: "fst ` set (sub_queries (fst ?r)) \<subseteq> ?A" unfolding p by simp
  have s5: "\<forall>s \<in> ?A. map_of (sub_queries (fst ?r)) s = map_of (sub_queries plan) s \<and>
      queries_for_sub (fst ?r) s = queries_for_sub plan s"
    unfolding p by (auto simp: map_of_filter_keys queries_for_sub_def split: option.splits)
  have s6: "intent (fst ?r) = intent plan \<and> global_queries (fst ?r) = global_queries plan \<and>
      mode (fst ?r) = mode plan \<and> source (fst ?r) = source plan" by (simp add: p)
  have s7: "subreddits_validated (fst (snd ?r)) = ?v" unfolding mm by simp
  have w1: "0 < ?c \<and> 3 * ?c < 10 * (?c - ?v) \<longrightarrow>
      warnings (fst (snd ?r)) = warnings m @ [ValidationFailed (?c - ?v) ?c]"
  proof
    assume a: "0 < ?c \<and> 3 * ?c < 10 * (?c - ?v)"
    then have ?warn using float_warn [OF assms _ vc c20] by blast
    with a show "warnings (fst (snd ?r)) = warnings m @ [ValidationFailed (?c - ?v) ?c]"
      unfolding mm by simp
  qed
  have w2: "?c = 0 \<or> 10 * (?c - ?v) < 3 * ?c \<longrightarrow> warnings (fst (snd ?r)) = warnings m"
  proof
    assume a: "?c = 0 \<or> 10 * (?c - ?v) < 3 * ?c"
    have "\<not> (0 < ?c \<and> ?warn)"
    proof (cases "?c = 0")
      case True
      then show ?thesis by blast
    next
      case False
      with a have "0 < ?c" "10 * (?c - ?v) < 3 * ?c" by blast+
      from float_no_warn [OF assms this(1) vc c20 this(2)] show ?thesis by blast
    qed
    then show "warnings (fst (snd ?r)) = warnings m" unfolding mm by simp
  qed
  show ?thesis
    unfolding Let_def by (intro conjI c20 vc tr ge s1 s2 s3 s4 s5 s6 [THEN conjunct1]
      s6 [THEN conjunct2, THEN conjunct1] s6 [THEN conjunct2, THEN conjunct2, THEN conjunct1]
      s6 [THEN conjunct2, THEN conjunct2, THEN conjunct2] s7 w1 w2)
qed

lemma validate_llm_plan_result_example:
  "float_model exact_ops \<and>
   fst (validate_subreddits about_ex (subreddits plan_ex) 20 []) = [(''a'', 10), (''c'', 5)] \<and>
   subreddits (fst (validate_llm_plan exact_ops about_ex plan_ex meta0 [])) = [''a'', ''c''] \<and>
   warnings (fst (snd (validate_llm_plan exact_ops about_ex plan_ex meta0 []))) =
     [ValidationFailed 1 3]"
proof -
  have fm: "float_model exact_ops" by (simp add: float_model_def exact_ops_def)
  have ev: "fst (validate_subreddits about_ex (subreddits plan_ex) 20 []) = [(''a'', 10), (''c'', 5)]"
    by code_simp
  have sp: "subreddits plan_ex = [''a'', ''b'', ''c'']" by (simp add: plan_ex_def)
  have wm: "warnings meta0 = []" by (simp add: meta0_def)
  have ev': "fst (validate_subreddits about_ex [''a'', ''b'', ''c''] 20 []) = [(''a'', 10), (''c'', 5)]"
    using ev unfolding sp .
  from validate_llm_plan_result [OF fm, where ab = about_ex and plan = plan_ex
      and m = meta0 and h = "[]"]
  have a: "subreddits (fst (validate_llm_plan exact_ops about_ex plan_ex meta0 [])) =
      filter (\<lambda>s. s \<in> fst ` set (fst (validate_subreddits about_ex (subreddits plan_ex) 20 [])))
        (subreddits plan_ex)"
    and b: "0 < length (take 20 (subreddits plan_ex)) \<and>
      3 * length (take 20 (subreddits plan_ex)) <
        10 * (length (take 20 (subreddits plan_ex)) -
              length (fst (validate_subreddits about_ex (subreddits plan_ex) 20 []))) \<longrightarrow>
      warnings (fst (snd (validate_llm_plan exact_ops about_ex plan_ex meta0 []))) =
        warnings meta0 @
        [ValidationFailed (length (take 20 (subreddits plan_ex)) -
            length (fst (validate_subreddits about_ex (subreddits plan_ex) 20 [])))
           (length (take 20 (subreddits plan_ex)))]"
    unfolding Let_def by blast+
  from a have a': "subreddits (fst (validate_llm_plan exact_ops about_ex plan_ex meta0 [])) =
      [''a'', ''c'']" unfolding sp ev' by simp
  from b have b': "warnings (fst (snd (validate_llm_plan exact_ops about_ex plan_ex meta0 []))) =
     [ValidationFailed 1 3]" unfolding sp ev' wm by simp
  show ?thesis by (intro conjI fm ev a' b')
qed

end
